theory Spec2Isabelle
  imports Main
begin

section \<open>The provider bridge service\<close>

text \<open>
  A shallow embedding of \<^verbatim>\<open>src/background/services/provider-bridge/index.ts\<close>.

  The service is a class with two object-valued fields, \<^verbatim>\<open>allowedPages\<close> and
  \<^verbatim>\<open>#pendingPermissionsRequests\<close>, both keyed by the url of the page, and a database
  handle that no method reads or writes. Its methods are \<^verbatim>\<open>async\<close>: a call of the
  message listener runs until it awaits something only the outside world can complete
  (a browser window being created, the human deciding, the internal provider answering)
  and is continued when that happens. The embedding makes this explicit: the state holds
  the table of listener calls with the place each one is suspended at, every completion
  is an event, and \<open>step\<close> runs the service from one event to the next suspension. The
  awaits of \<^verbatim>\<open>permissionCheck\<close> complete within the same turn of the event loop and
  are not suspension points. Calls of the logger and of \<^verbatim>\<open>console.log\<close> are left out.

  Two things are taken for granted. The url of a port is given by the browser and is
  the url of a page, never a name that every object inherits; the url of a decision
  comes from the popup and is any string. And ports stay connected:
  \<^verbatim>\<open>postMessage\<close> does not throw.
\<close>

subsection \<open>Data\<close>

text \<open>
  Values of type \<^verbatim>\<open>unknown\<close>: parameters and results of RPC calls. The service
  passes them on and never looks inside; the only value it builds is the empty array.
\<close>

datatype unknown =
  JNull
  | JBool bool
  | JNumber int
  | JString string
  | JArray "unknown list"
  | JObject "(string \<times> unknown) list"

text \<open>
  The object built at lines 89-93 of the listener, and the argument of
  \<^verbatim>\<open>permissionGrant\<close> and \<^verbatim>\<open>permissionDenyOrRevoke\<close>. The source compares
  \<^verbatim>\<open>state\<close> with string literals, so it is a string here.
\<close>

record PermissionRequest =
  url :: string
  favIconUrl :: string
  state :: string

record RPCRequest =
  "method" :: string
  params :: unknown

text \<open>The field \<^verbatim>\<open>id\<close> of both envelopes is renamed: \<open>id\<close> is the identity of HOL.\<close>

record PortRequestEvent =
  request_id :: string
  request :: RPCRequest

record PortResponseEvent =
  response_id :: string
  result :: unknown

text \<open>
  A port the constructor attached a listener to: \<^verbatim>\<open>port.sender.url\<close> is present.
  Ports are objects, so two ports of the same page differ; \<open>port_id\<close> is that identity.
\<close>

record Port =
  port_id :: nat
  sender_url :: string
  sender_tab_favIconUrl :: "string option"

text \<open>What a method of the service throws.\<close>

datatype error = TypeError

text \<open>
  Where a call of the listener stands: at one of its four awaits, or ended, by posting
  its response or by a rejected await. \<open>Running\<close> is a call between two suspensions,
  within a step.
\<close>

datatype pc =
  Running
  | AwaitPermissionWindow
  | AwaitUserAction
  | AwaitSignWindow
  | AwaitEngine
  | Responded
  | Rejected

record listener_call =
  port :: Port
  event :: PortRequestEvent
  at :: pc

text \<open>
  The first three fields are the fields of the class. A resolver stored in
  \<^verbatim>\<open>#pendingPermissionsRequests\<close> is the index of the listener call whose promise it
  resolves (each call creates at most one promise). The other fields record the calls in
  flight and what the service has asked of its collaborators so far: the events emitted,
  the pages \<^verbatim>\<open>showDappConnectWindow\<close> was called with, the calls of
  \<^verbatim>\<open>routeSafeRPCRequest\<close> on the internal provider, and the messages posted on ports.
\<close>

record 'db ProviderBridgeService =
  allowedPages :: "string \<rightharpoonup> PermissionRequest"
  pendingPermissionsRequests :: "string \<rightharpoonup> nat"
  db :: 'db
  calls :: "listener_call list"
  emitted :: "PermissionRequest list"
  windows :: "string list"
  routed :: "(string \<times> unknown) list"
  posted :: "(Port \<times> PortResponseEvent) list"

datatype event =
  Message Port PortRequestEvent
  | WindowCreated nat
  | WindowFailed nat
  | PermissionGranted PermissionRequest
  | PermissionDenied PermissionRequest
  | EngineResolved nat unknown
  | EngineRejected nat

subsection \<open>Operations\<close>

text \<open>\<^verbatim>\<open>ProviderBridgeService.create\<close> and the field initialisers of the class.\<close>

definition create :: "'db \<Rightarrow> 'db ProviderBridgeService" where
  "create d =
     \<lparr>allowedPages = Map.empty, pendingPermissionsRequests = Map.empty, db = d,
      calls = [], emitted = [], windows = [], routed = [], posted = []\<rparr>"

text \<open>\<^verbatim>\<open>this.allowedPages[url]?.state === "allow"\<close>\<close>

definition permissionCheck :: "'db ProviderBridgeService \<Rightarrow> string \<Rightarrow> bool" where
  "permissionCheck s u =
     (case allowedPages s u of None \<Rightarrow> False | Some p \<Rightarrow> state p = ''allow'')"

definition showDappConnectWindow ::
  "'db ProviderBridgeService \<Rightarrow> string \<Rightarrow> 'db ProviderBridgeService" where
  "showDappConnectWindow s page = s\<lparr>windows := windows s @ [page]\<rparr>"

definition routeSafeRPCRequest ::
  "'db ProviderBridgeService \<Rightarrow> string \<Rightarrow> unknown \<Rightarrow> 'db ProviderBridgeService" where
  "routeSafeRPCRequest s m ps = s\<lparr>routed := routed s @ [(m, ps)]\<rparr>"

definition routeContentScriptRPCRequest ::
  "'db ProviderBridgeService \<Rightarrow> string \<Rightarrow> unknown \<Rightarrow> 'db ProviderBridgeService" where
  "routeContentScriptRPCRequest s m ps =
     (if m = ''eth_requestAccounts'' then routeSafeRPCRequest s ''eth_accounts'' ps
      else routeSafeRPCRequest s m ps)"

text \<open>Call \<open>k\<close> of the listener stops at \<open>p\<close>.\<close>

definition suspend ::
  "'db ProviderBridgeService \<Rightarrow> nat \<Rightarrow> pc \<Rightarrow> 'db ProviderBridgeService" where
  "suspend s k p = s\<lparr>calls := (calls s)[k := (calls s ! k)\<lparr>at := p\<rparr>]\<rparr>"

text \<open>\<^verbatim>\<open>port.postMessage(response)\<close>, the last statement of the listener.\<close>

definition postMessage ::
  "'db ProviderBridgeService \<Rightarrow> nat \<Rightarrow> PortResponseEvent \<Rightarrow> 'db ProviderBridgeService" where
  "postMessage s k response =
     suspend (s\<lparr>posted := posted s @ [(port (calls s ! k), response)]\<rparr>) k Responded"

text \<open>
  The listener from line 104 on, for call \<open>k\<close>: the response starts as
  \<^verbatim>\<open>{ id: event.id, result: [] }\<close>; with permission the request is routed (after the
  sign window for \<^verbatim>\<open>eth_sendTransaction\<close>), without it the response is posted as it is.
\<close>

definition respond :: "'db ProviderBridgeService \<Rightarrow> nat \<Rightarrow> 'db ProviderBridgeService" where
  "respond s k =
     (let c = calls s ! k;
          response = \<lparr>response_id = request_id (event c), result = JArray []\<rparr>
      in if permissionCheck s (sender_url (port c)) then
           (if method (request (event c)) = ''eth_sendTransaction''
            then suspend (showDappConnectWindow s ''/signTransaction'') k AwaitSignWindow
            else suspend (routeContentScriptRPCRequest s (method (request (event c)))
                            (params (request (event c)))) k AwaitEngine)
         else postMessage s k response)"

text \<open>
  \<^verbatim>\<open>permissionRequest\<close> up to its await: the promise is created, the event emitted,
  the window asked for.
\<close>

definition permissionRequest ::
  "'db ProviderBridgeService \<Rightarrow> nat \<Rightarrow> PermissionRequest \<Rightarrow> 'db ProviderBridgeService" where
  "permissionRequest s k pr =
     suspend (showDappConnectWindow (s\<lparr>emitted := emitted s @ [pr]\<rparr>) ''/permission'')
       k AwaitPermissionWindow"

text \<open>
  \<^verbatim>\<open>permissionRequest\<close> after its await: the resolver is stored under the url of the
  request, replacing what was there, and the listener waits for the promise.
\<close>

definition permissionRequest_stored ::
  "'db ProviderBridgeService \<Rightarrow> nat \<Rightarrow> 'db ProviderBridgeService" where
  "permissionRequest_stored s k =
     suspend
       (s\<lparr>pendingPermissionsRequests :=
            (pendingPermissionsRequests s)(sender_url (port (calls s ! k)) \<mapsto> k)\<rparr>)
       k AwaitUserAction"

text \<open>
  The listener of a port on an event, up to its first suspension. The url and the
  favicon are read from the port, never from the message.
\<close>

definition onMessageListener ::
  "'db ProviderBridgeService \<Rightarrow> Port \<Rightarrow> PortRequestEvent \<Rightarrow> 'db ProviderBridgeService" where
  "onMessageListener s prt ev =
     (let k = length (calls s);
          s0 = s\<lparr>calls := calls s @ [\<lparr>port = prt, event = ev, at = Running\<rparr>]\<rparr>;
          u = sender_url prt;
          fav = (case sender_tab_favIconUrl prt of None \<Rightarrow> [] | Some f \<Rightarrow> f)
      in if method (request ev) = ''eth_requestAccounts'' \<and> \<not> permissionCheck s u
         then permissionRequest s0 k \<lparr>url = u, favIconUrl = fav, state = ''request''\<rparr>
         else respond s0 k)"

text \<open>
  Calling a resolver: the listener call waiting for that promise goes on at line 104,
  once the synchronous body of the caller is done.
\<close>

definition release :: "'db ProviderBridgeService \<Rightarrow> nat \<Rightarrow> 'db ProviderBridgeService" where
  "release s k =
     (if k < length (calls s) \<and> at (calls s ! k) = AwaitUserAction then respond s k else s)"

text \<open>
  The two methods that take the decision of the human. Their argument comes from the
  popup, so its url is any string. The guard of both,
  \<^verbatim>\<open>if (this.#pendingPermissionsRequests[permission.url])\<close>, tests what the lookup
  finds for truth, and the object looked into inherits from \<^verbatim>\<open>Object.prototype\<close>:
  under a name that every object inherits the lookup finds the inherited value, which
  is true, also where no resolver is stored. The body then runs on that value. The
  write to \<^verbatim>\<open>allowedPages\<close> takes place (under \<^verbatim>\<open>__proto__\<close> it sets the object the
  records inherit from, which a later lookup under that name finds again; the
  \<^verbatim>\<open>delete\<close> under that name removes nothing). Then the value is called with one
  string: \<^verbatim>\<open>__proto__\<close> is not a function, and \<^verbatim>\<open>__defineGetter__\<close> and
  \<^verbatim>\<open>__defineSetter__\<close> refuse a missing accessor, so these three throw a
  \<^verbatim>\<open>TypeError\<close>; the others return. The final \<^verbatim>\<open>delete\<close> of an entry that is not
  there does nothing.

  Both methods return the error thrown, if any, and the state they leave. A throw
  rejects the promise of the method; the service goes on from the state left.
\<close>

definition inherited :: "string \<Rightarrow> bool" where
  "inherited u \<longleftrightarrow>
     u \<in> set [''constructor'', ''hasOwnProperty'', ''isPrototypeOf'', ''propertyIsEnumerable'',
              ''toLocaleString'', ''toString'', ''valueOf'', ''__lookupGetter__'',
              ''__lookupSetter__'', ''__defineGetter__'', ''__defineSetter__'', ''__proto__'']"

definition refuses_call :: "string \<Rightarrow> bool" where
  "refuses_call u \<longleftrightarrow> u \<in> set [''__defineGetter__'', ''__defineSetter__'', ''__proto__'']"

definition permissionGrant ::
  "'db ProviderBridgeService \<Rightarrow> PermissionRequest
     \<Rightarrow> error option \<times> 'db ProviderBridgeService" where
  "permissionGrant s permission =
     (case pendingPermissionsRequests s (url permission) of
        None \<Rightarrow>
          if inherited (url permission) then
            (if refuses_call (url permission) then Some TypeError else None,
             s\<lparr>allowedPages := (allowedPages s)(url permission \<mapsto> permission)\<rparr>)
          else (None, s)
      | Some blockResolve \<Rightarrow>
          (None,
           release
             (s\<lparr>allowedPages := (allowedPages s)(url permission \<mapsto> permission),
                pendingPermissionsRequests :=
                  (pendingPermissionsRequests s)(url permission := None)\<rparr>)
             blockResolve))"

definition permissionDenyOrRevoke ::
  "'db ProviderBridgeService \<Rightarrow> PermissionRequest
     \<Rightarrow> error option \<times> 'db ProviderBridgeService" where
  "permissionDenyOrRevoke s permission =
     (case pendingPermissionsRequests s (url permission) of
        None \<Rightarrow>
          if inherited (url permission) then
            (if refuses_call (url permission) then Some TypeError else None,
             if url permission = ''__proto__'' then s
             else s\<lparr>allowedPages := (allowedPages s)(url permission := None)\<rparr>)
          else (None, s)
      | Some blockResolve \<Rightarrow>
          (None,
           release
             (s\<lparr>allowedPages := (allowedPages s)(url permission := None),
                pendingPermissionsRequests :=
                  (pendingPermissionsRequests s)(url permission := None)\<rparr>)
             blockResolve))"

subsection \<open>The event loop\<close>

text \<open>
  One event: a message on a port, the window of call \<open>k\<close> created or failed, a decision
  of the human, the internal provider answering call \<open>k\<close> or failing. A rejected await
  rejects the listener's promise: nothing is posted. A completion for a call that does
  not wait for it changes nothing.
\<close>

fun step :: "'db ProviderBridgeService \<Rightarrow> event \<Rightarrow> 'db ProviderBridgeService" where
  "step s (Message prt ev) = onMessageListener s prt ev"
| "step s (WindowCreated k) =
     (if k < length (calls s) then
        (case at (calls s ! k) of
           AwaitPermissionWindow \<Rightarrow> permissionRequest_stored s k
         | AwaitSignWindow \<Rightarrow>
             suspend (routeContentScriptRPCRequest s (method (request (event (calls s ! k))))
                        (params (request (event (calls s ! k))))) k AwaitEngine
         | _ \<Rightarrow> s)
      else s)"
| "step s (WindowFailed k) =
     (if k < length (calls s)
         \<and> (at (calls s ! k) = AwaitPermissionWindow \<or> at (calls s ! k) = AwaitSignWindow)
      then suspend s k Rejected else s)"
| "step s (PermissionGranted permission) = snd (permissionGrant s permission)"
| "step s (PermissionDenied permission) = snd (permissionDenyOrRevoke s permission)"
| "step s (EngineResolved k r) =
     (if k < length (calls s) \<and> at (calls s ! k) = AwaitEngine
      then postMessage s k \<lparr>response_id = request_id (event (calls s ! k)), result = r\<rparr>
      else s)"
| "step s (EngineRejected k) =
     (if k < length (calls s) \<and> at (calls s ! k) = AwaitEngine
      then suspend s k Rejected else s)"

definition run :: "'db ProviderBridgeService \<Rightarrow> event list \<Rightarrow> 'db ProviderBridgeService" where
  "run s evs = foldl step s evs"

subsection \<open>Derived notions\<close>

text \<open>Where \<open>respond\<close> leaves call \<open>k\<close>.\<close>

definition respond_at :: "'db ProviderBridgeService \<Rightarrow> nat \<Rightarrow> pc" where
  "respond_at s k =
     (if permissionCheck s (sender_url (port (calls s ! k))) then
        (if method (request (event (calls s ! k))) = ''eth_sendTransaction''
         then AwaitSignWindow else AwaitEngine)
      else Responded)"

text \<open>
  The invariant of the pending ledger: a stored resolver belongs to a listener call
  that waits for the human, made on a port of the url it is stored under; and only
  \<^verbatim>\<open>eth_requestAccounts\<close> calls ever enter an approval round.
\<close>

definition pending_wf :: "'db ProviderBridgeService \<Rightarrow> bool" where
  "pending_wf s \<longleftrightarrow>
     (\<forall>u k. pendingPermissionsRequests s u = Some k \<longrightarrow>
        k < length (calls s) \<and> at (calls s ! k) = AwaitUserAction
        \<and> sender_url (port (calls s ! k)) = u)
     \<and> (\<forall>k < length (calls s).
          at (calls s ! k) = AwaitPermissionWindow \<or> at (calls s ! k) = AwaitUserAction \<longrightarrow>
          method (request (event (calls s ! k))) = ''eth_requestAccounts'')"

text \<open>
  Counting per connection and identifier: the requests among the events, the listener
  calls made, the calls that have posted their response, the responses posted.
\<close>

definition is_request :: "Port \<Rightarrow> string \<Rightarrow> event \<Rightarrow> bool" where
  "is_request p i e = (case e of Message q ev \<Rightarrow> q = p \<and> request_id ev = i | _ \<Rightarrow> False)"

definition asked :: "event list \<Rightarrow> Port \<Rightarrow> string \<Rightarrow> nat" where
  "asked evs p i = length (filter (is_request p i) evs)"

definition received :: "'db ProviderBridgeService \<Rightarrow> Port \<Rightarrow> string \<Rightarrow> nat" where
  "received s p i = length (filter (\<lambda>c. port c = p \<and> request_id (event c) = i) (calls s))"

definition answered :: "'db ProviderBridgeService \<Rightarrow> Port \<Rightarrow> string \<Rightarrow> nat" where
  "answered s p i =
     length (filter (\<lambda>c. port c = p \<and> request_id (event c) = i \<and> at c = Responded) (calls s))"

definition delivered :: "'db ProviderBridgeService \<Rightarrow> Port \<Rightarrow> string \<Rightarrow> nat" where
  "delivered s p i = length (filter (\<lambda>x. fst x = p \<and> response_id (snd x) = i) (posted s))"

text \<open>
  Approval rounds: the decisions of the human among the events, the requests for
  accounts made by pages of a url, the rounds opened for a url (one
  \<^verbatim>\<open>permissionRequest\<close> event each) and the permission windows asked for.
\<close>

definition is_decision :: "event \<Rightarrow> bool" where
  "is_decision e =
     (case e of PermissionGranted _ \<Rightarrow> True | PermissionDenied _ \<Rightarrow> True | _ \<Rightarrow> False)"




text \<open>
  The requests among the events, in order; the name a request is routed under; one
  table of calls continuing another (the calls there stay, with their port and event,
  and a call that has responded stays so); a call left waiting for the human with no
  resolver stored for it.
\<close>

definition messages :: "event list \<Rightarrow> (Port \<times> PortRequestEvent) list" where
  "messages evs = concat (map (\<lambda>e. case e of Message p ev \<Rightarrow> [(p, ev)] | _ \<Rightarrow> []) evs)"


definition extends :: "listener_call list \<Rightarrow> listener_call list \<Rightarrow> bool" where
  "extends cs cs' \<longleftrightarrow>
     length cs \<le> length cs'
     \<and> (\<forall>j < length cs. port (cs' ! j) = port (cs ! j) \<and> event (cs' ! j) = event (cs ! j)
            \<and> (at (cs ! j) = Responded \<longrightarrow> at (cs' ! j) = Responded))"

definition abandoned :: "'db ProviderBridgeService \<Rightarrow> nat \<Rightarrow> bool" where
  "abandoned s k \<longleftrightarrow>
     k < length (calls s) \<and> at (calls s ! k) = AwaitUserAction
     \<and> (\<forall>u. pendingPermissionsRequests s u \<noteq> Some k)"

subsection \<open>Concrete pages and runs\<close>

definition origin :: string where
  "origin = ''https://dapp.example''"

definition elsewhere :: string where
  "elsewhere = ''https://other.example''"

definition dapp_port :: Port where
  "dapp_port = \<lparr>port_id = 1, sender_url = origin, sender_tab_favIconUrl = None\<rparr>"

definition other_port :: Port where
  "other_port =
     \<lparr>port_id = 2, sender_url = elsewhere,
      sender_tab_favIconUrl = Some ''https://other.example/favicon.ico''\<rparr>"

definition envelope :: "string \<Rightarrow> string \<Rightarrow> PortRequestEvent" where
  "envelope i m = \<lparr>request_id = i, request = \<lparr>method = m, params = JArray []\<rparr>\<rparr>"

definition decision :: "string \<Rightarrow> string \<Rightarrow> PermissionRequest" where
  "decision u st = \<lparr>url = u, favIconUrl = [], state = st\<rparr>"

text \<open>One approval round of \<open>dapp_port\<close>, up to the point where the human is asked.\<close>

definition first_round :: "event list" where
  "first_round = [Message dapp_port (envelope ''a'' ''eth_requestAccounts''), WindowCreated 0]"

text \<open>Two requests of \<open>dapp_port\<close> before any decision, both windows created.\<close>

definition two_requests :: "event list" where
  "two_requests =
     [Message dapp_port (envelope ''a'' ''eth_requestAccounts''),
      Message dapp_port (envelope ''b'' ''eth_requestAccounts''),
      WindowCreated 0, WindowCreated 1]"

text \<open>
  \<open>other_port\<close> is granted and answered; then \<open>dapp_port\<close>, which is not, asks for accounts
  and both pages ask for the chain with the identifier \<open>1\<close>.
\<close>

definition two_connections :: "event list" where
  "two_connections =
     [Message other_port (envelope ''0'' ''eth_requestAccounts''), WindowCreated 0,
      PermissionGranted (decision elsewhere ''allow''),
      EngineResolved 0 (JArray [JString ''0xabc'']),
      Message dapp_port (envelope ''1'' ''eth_chainId''),
      Message other_port (envelope ''1'' ''eth_chainId''),
      EngineResolved 2 (JString ''0x1'')]"

text \<open>A second port of the page of \<open>dapp_port\<close>.\<close>

definition second_port :: Port where
  "second_port = \<lparr>port_id = 3, sender_url = origin, sender_tab_favIconUrl = None\<rparr>"

text \<open>
  Both ports of the page ask for accounts with the identifier \<open>1\<close>; the human grants;
  the internal provider answers; a second grant and a late answer follow.
\<close>

definition same_identifier :: "event list" where
  "same_identifier =
     [Message dapp_port (envelope ''1'' ''eth_requestAccounts''),
      Message second_port (envelope ''1'' ''eth_requestAccounts''),
      WindowCreated 0, WindowCreated 1,
      PermissionGranted (decision origin ''allow''),
      EngineResolved 1 (JArray [JString ''0xabc'']),
      PermissionGranted (decision origin ''allow''),
      EngineResolved 0 (JArray [JString ''0xabc''])]"

text \<open>
  The page is granted on its first request while the window of its second is not yet
  there; that window comes, a transaction is asked, and the human denies.
\<close>

definition revoked_round :: "event list" where
  "revoked_round =
     [Message dapp_port (envelope ''a'' ''eth_requestAccounts''),
      Message dapp_port (envelope ''b'' ''eth_requestAccounts''),
      WindowCreated 0,
      PermissionGranted (decision origin ''allow''),
      WindowCreated 1,
      Message dapp_port (envelope ''t'' ''eth_sendTransaction''),
      PermissionDenied (decision origin ''deny'')]"

section \<open>Lemmas about the operations\<close>

lemmas op_defs = onMessageListener_def permissionRequest_def permissionRequest_stored_def
  respond_def postMessage_def suspend_def showDappConnectWindow_def
  routeContentScriptRPCRequest_def routeSafeRPCRequest_def release_def
  permissionGrant_def permissionDenyOrRevoke_def

lemma length_filter_update:
  "k < length xs \<Longrightarrow>
   length (filter P (xs[k := y])) + (if P (xs ! k) then 1 else 0)
     = length (filter P xs) + (if P y then 1 else 0)"
proof (induction xs arbitrary: k)
  case Nil
  then show ?case by simp
next
  case (Cons x xs)
  then show ?case by (cases k) auto
qed


lemma suspend_simps [simp]:
  "calls (suspend s k pc') = (calls s)[k := (calls s ! k)\<lparr>at := pc'\<rparr>]"
  "posted (suspend s k pc') = posted s"
  "allowedPages (suspend s k pc') = allowedPages s"
  "pendingPermissionsRequests (suspend s k pc') = pendingPermissionsRequests s"
  "db (suspend s k pc') = db s"
  "emitted (suspend s k pc') = emitted s"
  "windows (suspend s k pc') = windows s"
  "routed (suspend s k pc') = routed s"
  by (simp_all add: suspend_def)

lemma showDappConnectWindow_simps [simp]:
  "calls (showDappConnectWindow s page) = calls s"
  "posted (showDappConnectWindow s page) = posted s"
  "allowedPages (showDappConnectWindow s page) = allowedPages s"
  "pendingPermissionsRequests (showDappConnectWindow s page) = pendingPermissionsRequests s"
  "db (showDappConnectWindow s page) = db s"
  "emitted (showDappConnectWindow s page) = emitted s"
  "windows (showDappConnectWindow s page) = windows s @ [page]"
  "routed (showDappConnectWindow s page) = routed s"
  by (simp_all add: showDappConnectWindow_def)

lemma routeContentScriptRPCRequest_simps [simp]:
  "calls (routeContentScriptRPCRequest s m ps) = calls s"
  "posted (routeContentScriptRPCRequest s m ps) = posted s"
  "allowedPages (routeContentScriptRPCRequest s m ps) = allowedPages s"
  "pendingPermissionsRequests (routeContentScriptRPCRequest s m ps) = pendingPermissionsRequests s"
  "db (routeContentScriptRPCRequest s m ps) = db s"
  "emitted (routeContentScriptRPCRequest s m ps) = emitted s"
  "windows (routeContentScriptRPCRequest s m ps) = windows s"
  "routed (routeContentScriptRPCRequest s m ps) =
     routed s @ [(if m = ''eth_requestAccounts'' then ''eth_accounts'' else m, ps)]"
  by (simp_all add: routeContentScriptRPCRequest_def routeSafeRPCRequest_def)

lemma postMessage_simps [simp]:
  "calls (postMessage s k r) = (calls s)[k := (calls s ! k)\<lparr>at := Responded\<rparr>]"
  "posted (postMessage s k r) = posted s @ [(port (calls s ! k), r)]"
  "allowedPages (postMessage s k r) = allowedPages s"
  "pendingPermissionsRequests (postMessage s k r) = pendingPermissionsRequests s"
  "db (postMessage s k r) = db s"
  "emitted (postMessage s k r) = emitted s"
  "windows (postMessage s k r) = windows s"
  "routed (postMessage s k r) = routed s"
  by (simp_all add: postMessage_def)

lemma respond_simps:
  "calls (respond s k) = (calls s)[k := (calls s ! k)\<lparr>at := respond_at s k\<rparr>]"
  "posted (respond s k) =
     posted s @ (if respond_at s k = Responded
                 then [(port (calls s ! k),
                        \<lparr>response_id = request_id (event (calls s ! k)), result = JArray []\<rparr>)]
                 else [])"
  "allowedPages (respond s k) = allowedPages s"
  "pendingPermissionsRequests (respond s k) = pendingPermissionsRequests s"
  "db (respond s k) = db s"
  "emitted (respond s k) = emitted s"
  "windows (respond s k) =
     windows s @ (if respond_at s k = AwaitSignWindow then [''/signTransaction''] else [])"
  "routed (respond s k) =
     routed s @ (if respond_at s k = AwaitEngine
                 then [(if method (request (event (calls s ! k))) = ''eth_requestAccounts''
                        then ''eth_accounts'' else method (request (event (calls s ! k))),
                        params (request (event (calls s ! k))))]
                 else [])"
  by (simp_all add: respond_def respond_at_def Let_def)

lemma advance_counts:
  assumes k: "k < length (calls s)" and nr: "at (calls s ! k) \<noteq> Responded"
    and c: "calls s' = (calls s)[k := (calls s ! k)\<lparr>at := pc'\<rparr>]"
    and p: "posted s' = posted s @ (if pc' = Responded then [(port (calls s ! k), r)] else [])"
    and r: "response_id r = request_id (event (calls s ! k))"
  shows "received s' p i = received s p i"
    and "delivered s' p i + answered s p i = delivered s p i + answered s' p i"
proof -
  show "received s' p i = received s p i"
    using length_filter_update [OF k, of "\<lambda>c. port c = p \<and> request_id (event c) = i"
        "(calls s ! k)\<lparr>at := pc'\<rparr>"]
    by (simp add: received_def c)
  have "answered s' p i + (if False then 1 else 0) = answered s p i
          + (if port (calls s ! k) = p \<and> request_id (event (calls s ! k)) = i \<and> pc' = Responded
             then 1 else 0)"
    using length_filter_update [OF k,
        of "\<lambda>c. port c = p \<and> request_id (event c) = i \<and> at c = Responded"
        "(calls s ! k)\<lparr>at := pc'\<rparr>"] nr
    by (simp add: answered_def c)
  moreover have "delivered s' p i = delivered s p i
          + (if port (calls s ! k) = p \<and> request_id (event (calls s ! k)) = i \<and> pc' = Responded
             then 1 else 0)"
    by (simp add: delivered_def p r)
  ultimately show "delivered s' p i + answered s p i = delivered s p i + answered s' p i"
    by simp
qed

lemma suspend_counts:
  assumes k: "k < length (calls s)" and nr: "at (calls s ! k) \<noteq> Responded"
    and c: "calls s' = (calls s)[k := (calls s ! k)\<lparr>at := pc'\<rparr>]"
    and p: "posted s' = posted s" and pc: "pc' \<noteq> Responded"
  shows "received s' p i = received s p i"
    and "delivered s' p i + answered s p i = delivered s p i + answered s' p i"
  using advance_counts [OF k nr c, of
      "\<lparr>response_id = request_id (event (calls s ! k)), result = JNull\<rparr>" p i] p pc
  by simp_all

lemma unchanged_counts:
  assumes "calls s' = calls s" "posted s' = posted s"
  shows "received s' p i = received s p i" "delivered s' p i = delivered s p i"
    "answered s' p i = answered s p i"
  using assms by (simp_all add: received_def delivered_def answered_def)

lemma respond_counts:
  assumes k: "k < length (calls s)" and nr: "at (calls s ! k) \<noteq> Responded"
  shows "received (respond s k) p i = received s p i"
    and "delivered (respond s k) p i + answered s p i
           = delivered s p i + answered (respond s k) p i"
  by (rule advance_counts [OF k nr respond_simps(1) respond_simps(2)], simp)+

lemma release_counts:
  "received (release s k) p i = received s p i"
  "delivered (release s k) p i + answered s p i = delivered s p i + answered (release s k) p i"
  using respond_counts [of k s p i] by (auto simp: release_def)

lemma started_counts:
  "received (s\<lparr>calls := calls s @ [\<lparr>port = prt, event = ev, at = Running\<rparr>]\<rparr>) p i
     = received s p i + (if prt = p \<and> request_id ev = i then 1 else 0)"
  "delivered (s\<lparr>calls := calls s @ [\<lparr>port = prt, event = ev, at = Running\<rparr>]\<rparr>) p i
     = delivered s p i"
  "answered (s\<lparr>calls := calls s @ [\<lparr>port = prt, event = ev, at = Running\<rparr>]\<rparr>) p i
     = answered s p i"
  by (simp_all add: received_def delivered_def answered_def)

lemma onMessageListener_counts:
  "received (onMessageListener s prt ev) p i
     = received s p i + (if prt = p \<and> request_id ev = i then 1 else 0)"
  "delivered (onMessageListener s prt ev) p i + answered s p i
     = delivered s p i + answered (onMessageListener s prt ev) p i"
proof -
  let ?k = "length (calls s)"
  let ?s0 = "s\<lparr>calls := calls s @ [\<lparr>port = prt, event = ev, at = Running\<rparr>]\<rparr>"
  let ?pr = "\<lparr>url = sender_url prt,
              favIconUrl = (case sender_tab_favIconUrl prt of None \<Rightarrow> [] | Some f \<Rightarrow> f),
              state = ''request''\<rparr>"
  have k: "?k < length (calls ?s0)" "at (calls ?s0 ! ?k) \<noteq> Responded"
    by simp_all
  have "received (onMessageListener s prt ev) p i = received ?s0 p i
      \<and> delivered (onMessageListener s prt ev) p i + answered ?s0 p i
         = delivered ?s0 p i + answered (onMessageListener s prt ev) p i"
  proof (cases "method (request ev) = ''eth_requestAccounts'' \<and> \<not> permissionCheck s (sender_url prt)")
    case True
    then have eq: "onMessageListener s prt ev = permissionRequest ?s0 ?k ?pr"
      by (simp add: onMessageListener_def Let_def)
    show ?thesis
      unfolding eq
      using suspend_counts [OF k, of "permissionRequest ?s0 ?k ?pr" AwaitPermissionWindow p i]
      by (simp add: permissionRequest_def)
  next
    case False
    then have eq: "onMessageListener s prt ev = respond ?s0 ?k"
      by (auto simp add: onMessageListener_def Let_def)
    show ?thesis
      unfolding eq using respond_counts [OF k, of p i] by simp
  qed
  then show "received (onMessageListener s prt ev) p i
     = received s p i + (if prt = p \<and> request_id ev = i then 1 else 0)"
    and "delivered (onMessageListener s prt ev) p i + answered s p i
     = delivered s p i + answered (onMessageListener s prt ev) p i"
    using started_counts [of s prt ev p i] by simp_all
qed


lemma decision_state:
  obtains (released) k a where "pendingPermissionsRequests s (url pm) = Some k"
      "snd (permissionGrant s pm)
         = release (s\<lparr>allowedPages := a,
              pendingPermissionsRequests := (pendingPermissionsRequests s)(url pm := None)\<rparr>) k"
    | (stale) a where "pendingPermissionsRequests s (url pm) = None"
      "snd (permissionGrant s pm) = s\<lparr>allowedPages := a\<rparr>"
proof (cases "pendingPermissionsRequests s (url pm)")
  case None
  show ?thesis
  proof (cases "inherited (url pm)")
    case True
    with None show ?thesis
      using stale [of "(allowedPages s)(url pm \<mapsto> pm)"] by (simp add: permissionGrant_def)
  next
    case False
    with None show ?thesis
      using stale [of "allowedPages s"] by (simp add: permissionGrant_def)
  qed
next
  case (Some k)
  then show ?thesis
    using released [of k "(allowedPages s)(url pm \<mapsto> pm)"] by (simp add: permissionGrant_def)
qed

lemma revocation_state:
  obtains (released) k a where "pendingPermissionsRequests s (url pm) = Some k"
      "snd (permissionDenyOrRevoke s pm)
         = release (s\<lparr>allowedPages := a,
              pendingPermissionsRequests := (pendingPermissionsRequests s)(url pm := None)\<rparr>) k"
    | (stale) a where "pendingPermissionsRequests s (url pm) = None"
      "snd (permissionDenyOrRevoke s pm) = s\<lparr>allowedPages := a\<rparr>"
proof (cases "pendingPermissionsRequests s (url pm)")
  case None
  show ?thesis
  proof (cases "inherited (url pm) \<and> url pm \<noteq> ''__proto__''")
    case True
    with None show ?thesis
      using stale [of "(allowedPages s)(url pm := None)"]
      by (simp add: permissionDenyOrRevoke_def)
  next
    case False
    with None show ?thesis
      using stale [of "allowedPages s"] by (auto simp add: permissionDenyOrRevoke_def)
  qed
next
  case (Some k)
  then show ?thesis
    using released [of k "(allowedPages s)(url pm := None)"]
    by (simp add: permissionDenyOrRevoke_def)
qed

lemma decided_counts:
  assumes "s' = release (s\<lparr>allowedPages := a, pendingPermissionsRequests := q\<rparr>) k
           \<or> s' = s\<lparr>allowedPages := a\<rparr>"
  shows "received s' p i = received s p i"
    and "delivered s' p i + answered s p i = delivered s p i + answered s' p i"
proof -
  let ?g = "s\<lparr>allowedPages := a, pendingPermissionsRequests := q\<rparr>"
  let ?h = "s\<lparr>allowedPages := a\<rparr>"
  have g: "received ?g p i = received s p i" "delivered ?g p i = delivered s p i"
    "answered ?g p i = answered s p i"
    by (rule unchanged_counts; simp)+
  have h0: "received ?h p i = received s p i" "delivered ?h p i = delivered s p i"
    "answered ?h p i = answered s p i"
    by (rule unchanged_counts; simp)+
  have r: "received (release ?g k) p i = received s p i"
    "delivered (release ?g k) p i + answered s p i
       = delivered s p i + answered (release ?g k) p i"
    using release_counts [where s = ?g and k = k and p = p and i = i] g by simp_all
  from assms show "received s' p i = received s p i"
  proof (elim disjE)
    assume e: "s' = release ?g k"
    show "received s' p i = received s p i" unfolding e by (rule r(1))
  next
    assume e: "s' = ?h"
    show "received s' p i = received s p i" unfolding e by (rule h0(1))
  qed
  from assms show "delivered s' p i + answered s p i = delivered s p i + answered s' p i"
  proof (elim disjE)
    assume e: "s' = release ?g k"
    show "delivered s' p i + answered s p i = delivered s p i + answered s' p i"
      unfolding e by (rule r(2))
  next
    assume e: "s' = ?h"
    show "delivered s' p i + answered s p i = delivered s p i + answered s' p i"
      unfolding e using h0(2,3) by simp
  qed
qed

lemma decision_counts:
  "received (snd (permissionGrant s pm)) p i = received s p i"
  "delivered (snd (permissionGrant s pm)) p i + answered s p i
     = delivered s p i + answered (snd (permissionGrant s pm)) p i"
  "received (snd (permissionDenyOrRevoke s pm)) p i = received s p i"
  "delivered (snd (permissionDenyOrRevoke s pm)) p i + answered s p i
     = delivered s p i + answered (snd (permissionDenyOrRevoke s pm)) p i"
proof -
  obtain a q k where g: "snd (permissionGrant s pm)
      = release (s\<lparr>allowedPages := a, pendingPermissionsRequests := q\<rparr>) k
      \<or> snd (permissionGrant s pm) = s\<lparr>allowedPages := a\<rparr>"
    by (rule decision_state [of s pm]) blast+
  obtain a' q' k' where d: "snd (permissionDenyOrRevoke s pm)
      = release (s\<lparr>allowedPages := a', pendingPermissionsRequests := q'\<rparr>) k'
      \<or> snd (permissionDenyOrRevoke s pm) = s\<lparr>allowedPages := a'\<rparr>"
    by (rule revocation_state [of s pm]) blast+
  show "received (snd (permissionGrant s pm)) p i = received s p i"
    by (rule decided_counts(1) [OF g])
  show "delivered (snd (permissionGrant s pm)) p i + answered s p i
     = delivered s p i + answered (snd (permissionGrant s pm)) p i"
    by (rule decided_counts(2) [OF g])
  show "received (snd (permissionDenyOrRevoke s pm)) p i = received s p i"
    by (rule decided_counts(1) [OF d])
  show "delivered (snd (permissionDenyOrRevoke s pm)) p i + answered s p i
     = delivered s p i + answered (snd (permissionDenyOrRevoke s pm)) p i"
    by (rule decided_counts(2) [OF d])
qed

lemma step_counts:
  "received (step s e) p i = received s p i + (if is_request p i e then 1 else 0)"
  "delivered (step s e) p i + answered s p i = delivered s p i + answered (step s e) p i"
proof -
  have "received (step s e) p i = received s p i + (if is_request p i e then 1 else 0)
      \<and> delivered (step s e) p i + answered s p i = delivered s p i + answered (step s e) p i"
  proof (cases e)
    case (Message prt ev)
    then show ?thesis
      using onMessageListener_counts [of s prt ev p i] by (simp add: is_request_def)
  next
    case (WindowCreated k)
    show ?thesis
    proof (cases "k < length (calls s) \<and> at (calls s ! k) = AwaitPermissionWindow")
      case True
      then show ?thesis
        using suspend_counts [of k s "step s e" AwaitUserAction p i] WindowCreated
        by (simp add: is_request_def permissionRequest_stored_def)
    next
      case False
      note nw = this
      show ?thesis
      proof (cases "k < length (calls s) \<and> at (calls s ! k) = AwaitSignWindow")
        case True
        then show ?thesis
          using suspend_counts [of k s "step s e" AwaitEngine p i] WindowCreated
          by (simp add: is_request_def)
      next
        case False
        with nw have "step s e = s"
          using WindowCreated by (simp split: pc.splits)
        then show ?thesis using WindowCreated by (simp add: is_request_def)
      qed
    qed
  next
    case (WindowFailed k)
    then show ?thesis
      using suspend_counts [of k s "step s e" Rejected p i]
      by (auto simp add: is_request_def)
  next
    case (PermissionGranted pm)
    then show ?thesis using decision_counts(1,2) [of s pm p i] by (simp add: is_request_def)
  next
    case (PermissionDenied pm)
    then show ?thesis using decision_counts(3,4) [of s pm p i] by (simp add: is_request_def)
  next
    case (EngineResolved k r)
    then show ?thesis
      using advance_counts [of k s "step s e" Responded
          "\<lparr>response_id = request_id (event (calls s ! k)), result = r\<rparr>" p i]
      by (auto simp add: is_request_def)
  next
    case (EngineRejected k)
    then show ?thesis
      using suspend_counts [of k s "step s e" Rejected p i]
      by (auto simp add: is_request_def)
  qed
  then show "received (step s e) p i = received s p i + (if is_request p i e then 1 else 0)"
    and "delivered (step s e) p i + answered s p i = delivered s p i + answered (step s e) p i"
    by simp_all
qed

lemma run_counts:
  "received (run s evs) p i = received s p i + asked evs p i"
  "delivered (run s evs) p i + answered s p i = delivered s p i + answered (run s evs) p i"
proof -
  have "received (run s evs) p i = received s p i + asked evs p i
    \<and> delivered (run s evs) p i + answered s p i = delivered s p i + answered (run s evs) p i"
  proof (induction evs arbitrary: s)
    case Nil
    show ?case by (simp add: run_def asked_def)
  next
    case (Cons e evs)
    have r: "run s (e # evs) = run (step s e) evs" by (simp add: run_def)
    show ?case
      unfolding r using Cons [of "step s e"] step_counts [of s e p i]
      by (simp add: asked_def)
  qed
  then show "received (run s evs) p i = received s p i + asked evs p i"
    and "delivered (run s evs) p i + answered s p i = delivered s p i + answered (run s evs) p i"
    by simp_all
qed

lemma answered_le_received: "answered s p i \<le> received s p i"
proof -
  have "length (filter (\<lambda>c. port c = p \<and> request_id (event c) = i \<and> at c = Responded) xs)
          \<le> length (filter (\<lambda>c. port c = p \<and> request_id (event c) = i) xs)" for xs :: "listener_call list"
    by (induction xs) auto
  then show ?thesis by (simp add: answered_def received_def)
qed

lemma delivered_answered:
  "delivered (run (create d) evs) p i = answered (run (create d) evs) p i"
  using run_counts(2) [of "create d" evs p i]
  by (simp add: delivered_def answered_def create_def)

lemma answered_le_asked: "answered (run (create d) evs) p i \<le> asked evs p i"
proof -
  have "answered (run (create d) evs) p i \<le> received (run (create d) evs) p i"
    by (rule answered_le_received)
  also have "\<dots> = asked evs p i"
    using run_counts(1) [of "create d" evs p i] by (simp add: received_def create_def)
  finally show ?thesis .
qed

lemma posted_asked:
  assumes "(p, r) \<in> set (posted (run (create d) evs))"
  shows "\<exists>ev. Message p ev \<in> set evs \<and> request_id ev = response_id r"
proof -
  have "filter (\<lambda>x. fst x = p \<and> response_id (snd x) = response_id r)
          (posted (run (create d) evs)) \<noteq> []"
    using assms by (force simp add: filter_empty_conv)
  then have "0 < delivered (run (create d) evs) p (response_id r)"
    by (simp add: delivered_def)
  then have "0 < asked evs p (response_id r)"
    using delivered_answered [of d evs p "response_id r"]
      answered_le_asked [of d evs p "response_id r"] by simp
  then obtain e where e: "e \<in> set evs" "is_request p (response_id r) e"
    by (auto simp add: asked_def filter_empty_conv)
  show ?thesis
  proof (cases e)
    case (Message q ev)
    with e show ?thesis by (auto simp add: is_request_def)
  qed (use e in \<open>simp_all add: is_request_def\<close>)
qed

lemma respond_at_neq [simp]:
  "respond_at s k \<noteq> AwaitUserAction" "respond_at s k \<noteq> AwaitPermissionWindow"
  "respond_at s k \<noteq> Running" "respond_at s k \<noteq> Rejected"
  by (simp_all add: respond_at_def)

lemma pending_wf_allowedPages [simp]:
  "pending_wf (s\<lparr>allowedPages := a\<rparr>) = pending_wf s"
  by (simp add: pending_wf_def)

lemma pending_wf_create: "pending_wf (create d)"
  by (simp add: pending_wf_def create_def)

lemma pending_wfD:
  assumes "pending_wf s" "pendingPermissionsRequests s u = Some k"
  shows "k < length (calls s)" "at (calls s ! k) = AwaitUserAction"
    "sender_url (port (calls s ! k)) = u"
  using assms by (simp_all add: pending_wf_def)

lemma pending_wf_method:
  assumes "pending_wf s" "k < length (calls s)"
    "at (calls s ! k) = AwaitPermissionWindow \<or> at (calls s ! k) = AwaitUserAction"
  shows "method (request (event (calls s ! k))) = ''eth_requestAccounts''"
  using assms by (auto simp add: pending_wf_def)

lemma pending_wf_append:
  assumes wf: "pending_wf s"
  shows "pending_wf (s\<lparr>calls := calls s @ [\<lparr>port = prt, event = ev, at = Running\<rparr>]\<rparr>)"
  unfolding pending_wf_def
proof (intro conjI allI impI)
  let ?s0 = "s\<lparr>calls := calls s @ [\<lparr>port = prt, event = ev, at = Running\<rparr>]\<rparr>"
  fix u k assume "pendingPermissionsRequests ?s0 u = Some k"
  then have p: "pendingPermissionsRequests s u = Some k" by simp
  note d = pending_wfD [OF wf p]
  show "k < length (calls ?s0)" using d(1) by simp
  show "at (calls ?s0 ! k) = AwaitUserAction" using d(1,2) by (simp add: nth_append)
  show "sender_url (port (calls ?s0 ! k)) = u" using d(1,3) by (simp add: nth_append)
next
  let ?s0 = "s\<lparr>calls := calls s @ [\<lparr>port = prt, event = ev, at = Running\<rparr>]\<rparr>"
  fix k assume k: "k < length (calls ?s0)"
    and a: "at (calls ?s0 ! k) = AwaitPermissionWindow \<or> at (calls ?s0 ! k) = AwaitUserAction"
  show "method (request (event (calls ?s0 ! k))) = ''eth_requestAccounts''"
  proof (cases "k < length (calls s)")
    case True
    then show ?thesis using pending_wf_method [OF wf True] a by (simp add: nth_append)
  next
    case False
    then have "k = length (calls s)" using k by simp
    then show ?thesis using a by simp
  qed
qed

lemma pending_wf_update:
  assumes wf: "pending_wf s"
    and c: "calls s' = (calls s)[j := (calls s ! j)\<lparr>at := pc'\<rparr>]"
    and p: "pendingPermissionsRequests s' = pendingPermissionsRequests s"
    and free: "\<And>u. pendingPermissionsRequests s u \<noteq> Some j"
    and m: "pc' = AwaitPermissionWindow \<or> pc' = AwaitUserAction \<Longrightarrow>
              method (request (event (calls s ! j))) = ''eth_requestAccounts''"
  shows "pending_wf s'"
  unfolding pending_wf_def
proof (intro conjI allI impI)
  fix u k assume "pendingPermissionsRequests s' u = Some k"
  then have pk: "pendingPermissionsRequests s u = Some k" by (simp add: p)
  then have ne: "k \<noteq> j" using free [of u] by auto
  note d = pending_wfD [OF wf pk]
  show "k < length (calls s')" using d(1) by (simp add: c)
  show "at (calls s' ! k) = AwaitUserAction" using d(2) ne by (simp add: c)
  show "sender_url (port (calls s' ! k)) = u" using d(3) ne by (simp add: c)
next
  fix k assume k: "k < length (calls s')"
    and a: "at (calls s' ! k) = AwaitPermissionWindow \<or> at (calls s' ! k) = AwaitUserAction"
  have k': "k < length (calls s)" using k by (simp add: c)
  show "method (request (event (calls s' ! k))) = ''eth_requestAccounts''"
  proof (cases "k = j")
    case True
    then show ?thesis using a m k' by (simp add: c)
  next
    case False
    then show ?thesis using pending_wf_method [OF wf k'] a by (simp add: c)
  qed
qed

lemma pending_wf_Message:
  assumes wf: "pending_wf s" shows "pending_wf (onMessageListener s prt ev)"
proof -
  let ?k = "length (calls s)"
  let ?s0 = "s\<lparr>calls := calls s @ [\<lparr>port = prt, event = ev, at = Running\<rparr>]\<rparr>"
  have wf0: "pending_wf ?s0" by (rule pending_wf_append [OF wf])
  have free: "pendingPermissionsRequests ?s0 u \<noteq> Some ?k" for u
    using pending_wfD(1) [OF wf, of u ?k] by auto
  show ?thesis
  proof (cases "method (request ev) = ''eth_requestAccounts'' \<and> \<not> permissionCheck s (sender_url prt)")
    case True
    let ?pr = "\<lparr>url = sender_url prt,
                favIconUrl = (case sender_tab_favIconUrl prt of None \<Rightarrow> [] | Some f \<Rightarrow> f),
                state = ''request''\<rparr>"
    have "pending_wf (permissionRequest ?s0 ?k ?pr)"
    proof (rule pending_wf_update [OF wf0 _ _ free])
      show "calls (permissionRequest ?s0 ?k ?pr)
              = (calls ?s0)[?k := (calls ?s0 ! ?k)\<lparr>at := AwaitPermissionWindow\<rparr>]"
        by (simp add: permissionRequest_def)
      show "pendingPermissionsRequests (permissionRequest ?s0 ?k ?pr)
              = pendingPermissionsRequests ?s0"
        by (simp add: permissionRequest_def)
      show "method (request (event (calls ?s0 ! ?k))) = ''eth_requestAccounts''"
        using True by simp
    qed
    then show ?thesis using True by (simp add: onMessageListener_def Let_def)
  next
    case False
    have "pending_wf (respond ?s0 ?k)"
      by (rule pending_wf_update [OF wf0 respond_simps(1) respond_simps(4) free]) simp
    then show ?thesis using False by (auto simp add: onMessageListener_def Let_def)
  qed
qed

lemma pending_wf_release:
  assumes wf: "pending_wf s" and free: "\<And>u. pendingPermissionsRequests s u \<noteq> Some k"
  shows "pending_wf (release s k)"
proof -
  have "pending_wf (respond s k)"
    by (rule pending_wf_update [OF wf respond_simps(1) respond_simps(4) free]) simp
  then show ?thesis using wf by (simp add: release_def)
qed

lemma pending_wf_suspend:
  assumes wf: "pending_wf s" and a: "at (calls s ! k) \<noteq> AwaitUserAction"
    and s': "calls s' = (calls s)[k := (calls s ! k)\<lparr>at := pc'\<rparr>]"
      "pendingPermissionsRequests s' = pendingPermissionsRequests s"
    and pc': "pc' \<noteq> AwaitPermissionWindow" "pc' \<noteq> AwaitUserAction"
  shows "pending_wf s'"
proof (rule pending_wf_update [OF wf s'])
  show "pendingPermissionsRequests s u \<noteq> Some k" for u
    using pending_wfD(2) [OF wf, of u k] a by auto
  show "pc' = AwaitPermissionWindow \<or> pc' = AwaitUserAction \<Longrightarrow>
    method (request (event (calls s ! k))) = ''eth_requestAccounts''"
    using pc' by simp
qed

lemma pending_wf_stored:
  assumes wf: "pending_wf s" and k: "k < length (calls s)"
    and a: "at (calls s ! k) = AwaitPermissionWindow"
  shows "pending_wf (permissionRequest_stored s k)"
proof -
  let ?s' = "permissionRequest_stored s k"
  let ?u = "sender_url (port (calls s ! k))"
  have c: "calls ?s' = (calls s)[k := (calls s ! k)\<lparr>at := AwaitUserAction\<rparr>]"
    and p: "pendingPermissionsRequests ?s' = (pendingPermissionsRequests s)(?u \<mapsto> k)"
    by (simp_all add: permissionRequest_stored_def)
  have ledger: "j < length (calls ?s') \<and> at (calls ?s' ! j) = AwaitUserAction
            \<and> sender_url (port (calls ?s' ! j)) = u"
    if pj: "pendingPermissionsRequests ?s' u = Some j" for u j
  proof (cases "u = ?u")
    case True
    then have "j = k" using pj by (simp add: p)
    then show ?thesis using k True by (simp add: c)
  next
    case False
    then have pj': "pendingPermissionsRequests s u = Some j" using pj by (simp add: p)
    note d = pending_wfD [OF wf pj']
    have "j \<noteq> k" using d(2) a by auto
    then show ?thesis using d by (simp add: c)
  qed
  have methods: "method (request (event (calls ?s' ! j))) = ''eth_requestAccounts''"
    if j: "j < length (calls ?s')"
      and aj: "at (calls ?s' ! j) = AwaitPermissionWindow \<or> at (calls ?s' ! j) = AwaitUserAction"
    for j
  proof (cases "j = k")
    case True
    then show ?thesis using pending_wf_method [OF wf k] a k by (simp add: c)
  next
    case False
    have j': "j < length (calls s)" using j by (simp add: c)
    show ?thesis using False pending_wf_method [OF wf j'] aj by (simp add: c)
  qed
  show ?thesis
    unfolding pending_wf_def using ledger methods by blast
qed

lemma pending_wf_decided:
  assumes wf: "pending_wf s"
  shows "pending_wf (s\<lparr>allowedPages := a,
            pendingPermissionsRequests := (pendingPermissionsRequests s)(u := None)\<rparr>)"
  using wf by (simp add: pending_wf_def)

lemma pending_wf_decided_free:
  assumes wf: "pending_wf s" and k: "pendingPermissionsRequests s u = Some k"
  shows "((pendingPermissionsRequests s)(u := None)) v \<noteq> Some k"
  using pending_wfD(3) [OF wf k] pending_wfD(3) [OF wf, of v k] by auto

lemma pending_wf_step:
  assumes wf: "pending_wf s" shows "pending_wf (step s e)"
proof (cases e)
  case (Message prt ev)
  then show ?thesis using wf by (simp add: pending_wf_Message)
next
  case (WindowCreated k)
  show ?thesis
  proof (cases "k < length (calls s)")
    case False
    then show ?thesis using wf WindowCreated by simp
  next
    case k: True
    show ?thesis
    proof (cases "at (calls s ! k)")
      case AwaitPermissionWindow
      then show ?thesis using WindowCreated k pending_wf_stored [OF wf k] by simp
    next
      case AwaitSignWindow
      then show ?thesis
        using WindowCreated k pending_wf_suspend [OF wf, of k "step s e" AwaitEngine] by simp
    qed (use wf WindowCreated k in simp_all)
  qed
next
  case (WindowFailed k)
  then show ?thesis
    using pending_wf_suspend [OF wf, of k "step s e" Rejected] wf by auto
next
  case (PermissionGranted pm)
  show ?thesis
  proof (cases "pendingPermissionsRequests s (url pm)")
    case None
    then show ?thesis using wf PermissionGranted by (simp add: permissionGrant_def)
  next
    case (Some k)
    show ?thesis
      using PermissionGranted Some
        pending_wf_release [OF pending_wf_decided [OF wf, where a = "(allowedPages s)(url pm \<mapsto> pm)" and u = "url pm"], of k]
        pending_wf_decided_free [OF wf Some]
      by (simp add: permissionGrant_def)
  qed
next
  case (PermissionDenied pm)
  show ?thesis
  proof (cases "pendingPermissionsRequests s (url pm)")
    case None
    then show ?thesis using wf PermissionDenied by (simp add: permissionDenyOrRevoke_def)
  next
    case (Some k)
    show ?thesis
      using PermissionDenied Some
        pending_wf_release [OF pending_wf_decided [OF wf, where a = "(allowedPages s)(url pm := None)" and u = "url pm"], of k]
        pending_wf_decided_free [OF wf Some]
      by (simp add: permissionDenyOrRevoke_def)
  qed
next
  case (EngineResolved k r)
  then show ?thesis
    using pending_wf_suspend [OF wf, of k "step s e" Responded] wf by auto
next
  case (EngineRejected k)
  then show ?thesis
    using pending_wf_suspend [OF wf, of k "step s e" Rejected] wf by auto
qed

lemma pending_wf_run: "pending_wf s \<Longrightarrow> pending_wf (run s evs)"
proof (induction evs arbitrary: s)
  case Nil
  then show ?case by (simp add: run_def)
next
  case (Cons e evs)
  from Cons.IH [OF pending_wf_step [OF Cons.prems, of e]]
  show ?case by (simp add: run_def)
qed

lemma pending_wf_reachable: "pending_wf (run (create d) evs)"
  by (rule pending_wf_run [OF pending_wf_create])


lemma listener_gate:
  assumes "method (request ev) = ''eth_requestAccounts''" "\<not> permissionCheck s (sender_url prt)"
  shows "onMessageListener s prt ev =
    s\<lparr>calls := calls s @ [\<lparr>port = prt, event = ev, at = AwaitPermissionWindow\<rparr>],
      emitted := emitted s @ [\<lparr>url = sender_url prt,
         favIconUrl = (case sender_tab_favIconUrl prt of None \<Rightarrow> [] | Some f \<Rightarrow> f),
         state = ''request''\<rparr>],
      windows := windows s @ [''/permission'']\<rparr>"
  using assms
  by (simp add: onMessageListener_def permissionRequest_def Let_def suspend_def
        showDappConnectWindow_def)

lemma listener_refused:
  assumes "method (request ev) \<noteq> ''eth_requestAccounts''" "\<not> permissionCheck s (sender_url prt)"
  shows "onMessageListener s prt ev =
    s\<lparr>calls := calls s @ [\<lparr>port = prt, event = ev, at = Responded\<rparr>],
      posted := posted s @ [(prt, \<lparr>response_id = request_id ev, result = JArray []\<rparr>)]\<rparr>"
  using assms
  by (simp add: onMessageListener_def respond_def Let_def suspend_def postMessage_def
        permissionCheck_def)

lemma listener_routed:
  assumes "permissionCheck s (sender_url prt)" "method (request ev) \<noteq> ''eth_sendTransaction''"
  shows "onMessageListener s prt ev =
    s\<lparr>calls := calls s @ [\<lparr>port = prt, event = ev, at = AwaitEngine\<rparr>],
      routed := routed s @ [(if method (request ev) = ''eth_requestAccounts''
                             then ''eth_accounts'' else method (request ev),
                             params (request ev))]\<rparr>"
  using assms
  by (simp add: onMessageListener_def respond_def Let_def suspend_def
        routeContentScriptRPCRequest_def routeSafeRPCRequest_def permissionCheck_def)

lemma listener_sign:
  assumes "permissionCheck s (sender_url prt)" "method (request ev) = ''eth_sendTransaction''"
  shows "onMessageListener s prt ev =
    s\<lparr>calls := calls s @ [\<lparr>port = prt, event = ev, at = AwaitSignWindow\<rparr>],
      windows := windows s @ [''/signTransaction'']\<rparr>"
  using assms
  by (simp add: onMessageListener_def respond_def Let_def suspend_def
        showDappConnectWindow_def permissionCheck_def)

lemma deny_releases:
  assumes wf: "pending_wf s" and k: "pendingPermissionsRequests s (url pm) = Some k"
  shows "snd (permissionDenyOrRevoke s pm) =
    s\<lparr>allowedPages := (allowedPages s)(url pm := None),
      pendingPermissionsRequests := (pendingPermissionsRequests s)(url pm := None),
      calls := (calls s)[k := (calls s ! k)\<lparr>at := Responded\<rparr>],
      posted := posted s @ [(port (calls s ! k),
          \<lparr>response_id = request_id (event (calls s ! k)), result = JArray []\<rparr>)]\<rparr>"
  using pending_wfD [OF wf k] k
  by (simp add: permissionDenyOrRevoke_def release_def respond_def Let_def suspend_def
        postMessage_def permissionCheck_def)

lemma grant_releases:
  assumes wf: "pending_wf s" and k: "pendingPermissionsRequests s (url pm) = Some k"
    and a: "state pm = ''allow''"
  shows "snd (permissionGrant s pm) =
    s\<lparr>allowedPages := (allowedPages s)(url pm \<mapsto> pm),
      pendingPermissionsRequests := (pendingPermissionsRequests s)(url pm := None),
      calls := (calls s)[k := (calls s ! k)\<lparr>at := AwaitEngine\<rparr>],
      routed := routed s @ [(''eth_accounts'', params (request (event (calls s ! k))))]\<rparr>"
  using pending_wfD [OF wf k] k a
    pending_wf_method [OF wf pending_wfD(1) [OF wf k]]
  by (simp add: permissionGrant_def release_def respond_def Let_def suspend_def
        routeContentScriptRPCRequest_def routeSafeRPCRequest_def permissionCheck_def)


lemmas scenario_defs = origin_def elsewhere_def dapp_port_def other_port_def second_port_def
  envelope_def decision_def first_round_def two_requests_def two_connections_def
  same_identifier_def revoked_round_def messages_def

lemmas eval_defs = run_def create_def permissionCheck_def op_defs Let_def

lemma run_Cons: "run s (e # evs) = run (step s e) evs"
  by (simp add: run_def)

lemma run_append: "run s (evs @ evs') = run (run s evs) evs'"
  by (simp add: run_def)

lemma db_step: "db (step s e) = db s"
  by (cases e)
    (simp_all add: onMessageListener_def permissionRequest_def permissionRequest_stored_def
       permissionGrant_def permissionDenyOrRevoke_def release_def respond_simps Let_def
       split: option.splits pc.splits)

lemma db_run: "db (run s evs) = db s"
  by (induction evs arbitrary: s) (simp_all add: run_def db_step)








lemma extends_refl: "extends cs cs"
  by (simp add: extends_def)

lemma extends_trans: "extends cs cs' \<Longrightarrow> extends cs' cs'' \<Longrightarrow> extends cs cs''"
  by (auto simp add: extends_def)

lemma extends_append: "extends cs (cs @ xs)"
  by (simp add: extends_def nth_append)

lemma extends_update:
  assumes "k < length cs \<Longrightarrow> at (cs ! k) \<noteq> Responded"
  shows "extends cs (cs[k := (cs ! k)\<lparr>at := pc'\<rparr>])"
proof -
  have "port (cs[k := (cs ! k)\<lparr>at := pc'\<rparr>] ! j) = port (cs ! j)
      \<and> event (cs[k := (cs ! k)\<lparr>at := pc'\<rparr>] ! j) = event (cs ! j)
      \<and> (at (cs ! j) = Responded \<longrightarrow> at (cs[k := (cs ! k)\<lparr>at := pc'\<rparr>] ! j) = Responded)"
    if "j < length cs" for j
    using that assms by (cases "j = k") simp_all
  then show ?thesis by (simp add: extends_def)
qed

lemma extendsD:
  assumes "extends cs cs'" "j < length cs"
  shows "j < length cs'" "port (cs' ! j) = port (cs ! j)" "event (cs' ! j) = event (cs ! j)"
    "at (cs ! j) = Responded \<Longrightarrow> at (cs' ! j) = Responded"
  using assms by (auto simp add: extends_def)

lemma respond_extends:
  assumes "k < length (calls s) \<Longrightarrow> at (calls s ! k) \<noteq> Responded"
  shows "extends (calls s) (calls (respond s k))"
  unfolding respond_simps(1) by (rule extends_update) (rule assms)

lemma release_extends: "extends (calls s) (calls (release s k))"
  by (simp add: release_def respond_extends extends_refl)

lemma onMessageListener_calls:
  "\<exists>pc'. calls (onMessageListener s prt ev)
           = calls s @ [\<lparr>port = prt, event = ev, at = pc'\<rparr>]"
  by (simp add: onMessageListener_def permissionRequest_def respond_simps Let_def)

lemma decided_extends:
  assumes "s' = release (s\<lparr>allowedPages := a, pendingPermissionsRequests := q\<rparr>) k
           \<or> s' = s\<lparr>allowedPages := a\<rparr>"
  shows "extends (calls s) (calls s')"
  using assms
proof (elim disjE)
  assume e: "s' = release (s\<lparr>allowedPages := a, pendingPermissionsRequests := q\<rparr>) k"
  show ?thesis
    unfolding e
    using release_extends [of "s\<lparr>allowedPages := a, pendingPermissionsRequests := q\<rparr>" k]
    by simp
next
  assume e: "s' = s\<lparr>allowedPages := a\<rparr>"
  show ?thesis unfolding e by (simp add: extends_refl)
qed

lemma decision_shape:
  assumes "is_decision e"
  obtains a q k where "step s e = release (s\<lparr>allowedPages := a, pendingPermissionsRequests := q\<rparr>) k
           \<or> step s e = s\<lparr>allowedPages := a\<rparr>"
proof (cases e)
  case (PermissionGranted pm)
  show ?thesis
  proof (rule decision_state [of s pm])
    fix k a
    assume "snd (permissionGrant s pm)
      = release (s\<lparr>allowedPages := a,
          pendingPermissionsRequests := (pendingPermissionsRequests s)(url pm := None)\<rparr>) k"
    then show ?thesis
      using that [where a = a and q = "(pendingPermissionsRequests s)(url pm := None)" and k = k] PermissionGranted
      by simp
  next
    fix a
    assume "snd (permissionGrant s pm) = s\<lparr>allowedPages := a\<rparr>"
    then show ?thesis
      using that [where a = a] PermissionGranted by simp
  qed
next
  case (PermissionDenied pm)
  show ?thesis
  proof (rule revocation_state [of s pm])
    fix k a
    assume "snd (permissionDenyOrRevoke s pm)
      = release (s\<lparr>allowedPages := a,
          pendingPermissionsRequests := (pendingPermissionsRequests s)(url pm := None)\<rparr>) k"
    then show ?thesis
      using that [where a = a and q = "(pendingPermissionsRequests s)(url pm := None)" and k = k] PermissionDenied
      by simp
  next
    fix a
    assume "snd (permissionDenyOrRevoke s pm) = s\<lparr>allowedPages := a\<rparr>"
    then show ?thesis
      using that [where a = a] PermissionDenied by simp
  qed
qed (use assms in \<open>simp_all add: is_decision_def\<close>)

lemma step_extends: "extends (calls s) (calls (step s e))"
proof (cases e)
  case (Message prt ev)
  then show ?thesis
    using onMessageListener_calls [of s prt ev] by (auto simp add: extends_append)
next
  case (WindowCreated k)
  show ?thesis
  proof (cases "k < length (calls s)")
    case True
    then show ?thesis
      using WindowCreated
      by (cases "at (calls s ! k)")
        (simp_all add: extends_refl permissionRequest_stored_def extends_update)
  next
    case False
    then show ?thesis using WindowCreated by (simp add: extends_refl)
  qed
next
  case (WindowFailed k)
  then show ?thesis by (auto simp add: extends_refl extends_update)
next
  case (PermissionGranted pm)
  then have "is_decision e" by (simp add: is_decision_def)
  then show ?thesis
    by (rule decision_shape [of e s]) (rule decided_extends)
next
  case (PermissionDenied pm)
  then have "is_decision e" by (simp add: is_decision_def)
  then show ?thesis
    by (rule decision_shape [of e s]) (rule decided_extends)
next
  case (EngineResolved k r)
  then show ?thesis by (auto simp add: extends_refl extends_update)
next
  case (EngineRejected k)
  then show ?thesis by (auto simp add: extends_refl extends_update)
qed

lemma respond_posted:
  assumes "k < length (calls s)"
  shows "posted (respond s k) = posted s
    \<or> (at (calls (respond s k) ! k) = Responded
       \<and> posted (respond s k)
           = posted s @ [(port (calls (respond s k) ! k),
                \<lparr>response_id = request_id (event (calls (respond s k) ! k)),
                 result = JArray []\<rparr>)])"
  using assms by (simp add: respond_simps)

lemma decided_posted:
  assumes "s' = release (s\<lparr>allowedPages := a, pendingPermissionsRequests := q\<rparr>) k
           \<or> s' = s\<lparr>allowedPages := a\<rparr>"
  shows "posted s' = posted s
    \<or> (k < length (calls s') \<and> at (calls s' ! k) = Responded
       \<and> posted s' = posted s @ [(port (calls s' ! k),
                \<lparr>response_id = request_id (event (calls s' ! k)), result = JArray []\<rparr>)])"
  using assms
proof (elim disjE)
  let ?g = "s\<lparr>allowedPages := a, pendingPermissionsRequests := q\<rparr>"
  assume e: "s' = release ?g k"
  show ?thesis
  proof (cases "k < length (calls ?g) \<and> at (calls ?g ! k) = AwaitUserAction")
    case True
    then have r: "s' = respond ?g k" by (simp add: e release_def)
    have k: "k < length (calls ?g)" using True by simp
    show ?thesis
      unfolding r using respond_posted [OF k] k by (simp add: respond_simps(1))
  next
    case False
    then have "s' = ?g" by (auto simp add: e release_def)
    then show ?thesis by simp
  qed
next
  assume "s' = s\<lparr>allowedPages := a\<rparr>"
  then show ?thesis by simp
qed

lemma step_posted:
  "posted (step s e) = posted s
   \<or> (\<exists>k r. k < length (calls (step s e)) \<and> at (calls (step s e) ! k) = Responded
        \<and> posted (step s e)
            = posted s @ [(port (calls (step s e) ! k),
                 \<lparr>response_id = request_id (event (calls (step s e) ! k)), result = r\<rparr>)]
        \<and> (r = JArray [] \<or> e = EngineResolved k r))"
proof (cases e)
  case (Message prt ev)
  let ?s0 = "s\<lparr>calls := calls s @ [\<lparr>port = prt, event = ev, at = Running\<rparr>]\<rparr>"
  let ?k = "length (calls s)"
  show ?thesis
  proof (cases "method (request ev) = ''eth_requestAccounts'' \<and> \<not> permissionCheck s (sender_url prt)")
    case True
    then show ?thesis using Message listener_gate [of ev s prt] by simp
  next
    case False
    then have eq: "step s e = respond ?s0 ?k"
      using Message by (auto simp add: onMessageListener_def Let_def)
    have k: "?k < length (calls ?s0)" by simp
    have p: "posted ?s0 = posted s" by simp
    have l: "length (calls (respond ?s0 ?k)) = Suc ?k" by (simp add: respond_simps(1))
    from respond_posted [OF k] show ?thesis
      unfolding eq p using l by (metis lessI)
  qed
next
  case (WindowCreated k)
  then show ?thesis
    by (simp add: permissionRequest_stored_def split: pc.splits)
next
  case (WindowFailed k)
  then show ?thesis by simp
next
  case (PermissionGranted pm)
  then have "is_decision e" by (simp add: is_decision_def)
  then show ?thesis
    by (rule decision_shape [of e s]) (use decided_posted in blast)
next
  case (PermissionDenied pm)
  then have "is_decision e" by (simp add: is_decision_def)
  then show ?thesis
    by (rule decision_shape [of e s]) (use decided_posted in blast)
next
  case (EngineResolved k r)
  show ?thesis
  proof (cases "k < length (calls s) \<and> at (calls s ! k) = AwaitEngine")
    case True
    then show ?thesis using EngineResolved by auto
  next
    case False
    then show ?thesis using EngineResolved by auto
  qed
next
  case (EngineRejected k)
  then show ?thesis by simp
qed

lemma map_update_at:
  "map (\<lambda>c. (port c, event c)) (cs[k := (cs ! k)\<lparr>at := pc'\<rparr>]) = map (\<lambda>c. (port c, event c)) cs"
proof (cases "k < length cs")
  case True
  then show ?thesis by (simp add: map_update list_update_same_conv)
next
  case False
  then show ?thesis by (simp add: list_update_beyond)
qed

lemma decided_messages:
  assumes "s' = release (s\<lparr>allowedPages := a, pendingPermissionsRequests := q\<rparr>) k
           \<or> s' = s\<lparr>allowedPages := a\<rparr>"
  shows "map (\<lambda>c. (port c, event c)) (calls s') = map (\<lambda>c. (port c, event c)) (calls s)"
  using assms by (auto simp add: release_def respond_simps(1) map_update_at)

lemma step_messages:
  "map (\<lambda>c. (port c, event c)) (calls (step s e))
     = map (\<lambda>c. (port c, event c)) (calls s) @ messages [e]"
proof (cases e)
  case (Message prt ev)
  then show ?thesis
    using onMessageListener_calls [of s prt ev] by (auto simp add: messages_def)
next
  case (WindowCreated k)
  then show ?thesis
    by (simp add: messages_def permissionRequest_stored_def map_update_at split: pc.splits)
next
  case (PermissionGranted pm)
  then have "is_decision e" by (simp add: is_decision_def)
  then show ?thesis
    by (rule decision_shape [of e s]) (use PermissionGranted decided_messages in \<open>simp add: messages_def\<close>)
next
  case (PermissionDenied pm)
  then have "is_decision e" by (simp add: is_decision_def)
  then show ?thesis
    by (rule decision_shape [of e s]) (use PermissionDenied decided_messages in \<open>simp add: messages_def\<close>)
qed (simp_all add: messages_def map_update_at)

lemma run_messages:
  "map (\<lambda>c. (port c, event c)) (calls (run s evs))
     = map (\<lambda>c. (port c, event c)) (calls s) @ messages evs"
proof (induction evs arbitrary: s)
  case Nil
  show ?case by (simp add: run_def messages_def)
next
  case (Cons e evs)
  show ?case
    using Cons [of "step s e"] step_messages [of s e] by (simp add: run_Cons messages_def)
qed

lemma posted_tied:
  "\<forall>x \<in> set (posted (run (create d) evs)).
     \<exists>k < length (calls (run (create d) evs)).
       port (calls (run (create d) evs) ! k) = fst x
       \<and> request_id (event (calls (run (create d) evs) ! k)) = response_id (snd x)
       \<and> at (calls (run (create d) evs) ! k) = Responded
       \<and> (result (snd x) = JArray [] \<or> EngineResolved k (result (snd x)) \<in> set evs)"
proof (induction evs rule: rev_induct)
  case Nil
  show ?case by (simp add: run_def create_def)
next
  case (snoc e evs)
  let ?s = "run (create d) evs"
  let ?s' = "step ?s e"
  have r: "run (create d) (evs @ [e]) = ?s'" by (simp add: run_append run_def)
  note ext = step_extends [of ?s e]
  have old: "\<exists>k < length (calls ?s').
       port (calls ?s' ! k) = fst x
       \<and> request_id (event (calls ?s' ! k)) = response_id (snd x)
       \<and> at (calls ?s' ! k) = Responded
       \<and> (result (snd x) = JArray [] \<or> EngineResolved k (result (snd x)) \<in> set (evs @ [e]))"
    if x: "x \<in> set (posted ?s)" for x
  proof -
    from snoc x obtain k where k: "k < length (calls ?s)" "port (calls ?s ! k) = fst x"
      "request_id (event (calls ?s ! k)) = response_id (snd x)" "at (calls ?s ! k) = Responded"
      "result (snd x) = JArray [] \<or> EngineResolved k (result (snd x)) \<in> set evs"
      by blast
    show ?thesis
      using extendsD [OF ext k(1)] k by (intro exI [of _ k]) auto
  qed
  show ?case
    unfolding r
  proof
    fix x assume x: "x \<in> set (posted ?s')"
    from step_posted [of ?s e] show "\<exists>k < length (calls ?s').
       port (calls ?s' ! k) = fst x
       \<and> request_id (event (calls ?s' ! k)) = response_id (snd x)
       \<and> at (calls ?s' ! k) = Responded
       \<and> (result (snd x) = JArray [] \<or> EngineResolved k (result (snd x)) \<in> set (evs @ [e]))"
    proof
      assume "posted ?s' = posted ?s"
      then show ?thesis using old [of x] x by simp
    next
      assume "\<exists>k r. k < length (calls ?s') \<and> at (calls ?s' ! k) = Responded
        \<and> posted ?s' = posted ?s @ [(port (calls ?s' ! k),
                 \<lparr>response_id = request_id (event (calls ?s' ! k)), result = r\<rparr>)]
        \<and> (r = JArray [] \<or> e = EngineResolved k r)"
      then obtain k r where k: "k < length (calls ?s')" "at (calls ?s' ! k) = Responded"
        "posted ?s' = posted ?s @ [(port (calls ?s' ! k),
                 \<lparr>response_id = request_id (event (calls ?s' ! k)), result = r\<rparr>)]"
        "r = JArray [] \<or> e = EngineResolved k r"
        by blast
      show ?thesis
      proof (cases "x \<in> set (posted ?s)")
        case True
        then show ?thesis by (rule old)
      next
        case False
        then have "x = (port (calls ?s' ! k),
                 \<lparr>response_id = request_id (event (calls ?s' ! k)), result = r\<rparr>)"
          using x k(3) by simp
        then show ?thesis
          using k by (intro exI [of _ k]) auto
      qed
    qed
  qed
qed










lemma abandoned_respond:
  assumes "abandoned s k" "j \<noteq> k"
  shows "abandoned (respond s j) k"
  using assms by (simp add: abandoned_def respond_simps)

lemma abandoned_step:
  assumes a: "abandoned s k"
  shows "abandoned (step s e) k"
proof (cases e)
  case (Message prt ev)
  let ?s0 = "s\<lparr>calls := calls s @ [\<lparr>port = prt, event = ev, at = Running\<rparr>]\<rparr>"
  have a0: "abandoned ?s0 k" using a by (simp add: abandoned_def nth_append)
  have ne: "length (calls s) \<noteq> k" using a by (simp add: abandoned_def)
  show ?thesis
  proof (cases "method (request ev) = ''eth_requestAccounts'' \<and> \<not> permissionCheck s (sender_url prt)")
    case True
    then show ?thesis
      using Message listener_gate [of ev s prt] a by (simp add: abandoned_def nth_append)
  next
    case False
    then have "step s e = respond ?s0 (length (calls s))"
      using Message by (auto simp add: onMessageListener_def Let_def)
    then show ?thesis using abandoned_respond [OF a0 ne] by simp
  qed
next
  case (WindowCreated j)
  show ?thesis
  proof (cases "j = k")
    case True
    then show ?thesis using WindowCreated a by (simp add: abandoned_def)
  next
    case False
    then show ?thesis
      using WindowCreated a
      by (cases "at (calls s ! j)") (simp_all add: abandoned_def permissionRequest_stored_def)
  qed
next
  case (WindowFailed j)
  then show ?thesis using a by (cases "j = k") (auto simp add: abandoned_def)
next
  case (PermissionGranted pm)
  show ?thesis
  proof (rule decision_state [of s pm])
    fix j b
    assume j: "pendingPermissionsRequests s (url pm) = Some j"
      and eq: "snd (permissionGrant s pm)
        = release (s\<lparr>allowedPages := b,
            pendingPermissionsRequests := (pendingPermissionsRequests s)(url pm := None)\<rparr>) j"
    let ?g = "s\<lparr>allowedPages := b,
            pendingPermissionsRequests := (pendingPermissionsRequests s)(url pm := None)\<rparr>"
    have ne: "j \<noteq> k" using a j by (auto simp add: abandoned_def)
    have g: "abandoned ?g k" using a by (simp add: abandoned_def)
    have "abandoned (release ?g j) k"
      using abandoned_respond [OF g ne] g by (simp add: release_def)
    then show ?thesis using PermissionGranted eq by simp
  next
    fix b
    assume "snd (permissionGrant s pm) = s\<lparr>allowedPages := b\<rparr>"
    then show ?thesis using PermissionGranted a by (simp add: abandoned_def)
  qed
next
  case (PermissionDenied pm)
  show ?thesis
  proof (rule revocation_state [of s pm])
    fix j b
    assume j: "pendingPermissionsRequests s (url pm) = Some j"
      and eq: "snd (permissionDenyOrRevoke s pm)
        = release (s\<lparr>allowedPages := b,
            pendingPermissionsRequests := (pendingPermissionsRequests s)(url pm := None)\<rparr>) j"
    let ?g = "s\<lparr>allowedPages := b,
            pendingPermissionsRequests := (pendingPermissionsRequests s)(url pm := None)\<rparr>"
    have ne: "j \<noteq> k" using a j by (auto simp add: abandoned_def)
    have g: "abandoned ?g k" using a by (simp add: abandoned_def)
    have "abandoned (release ?g j) k"
      using abandoned_respond [OF g ne] g by (simp add: release_def)
    then show ?thesis using PermissionDenied eq by simp
  next
    fix b
    assume "snd (permissionDenyOrRevoke s pm) = s\<lparr>allowedPages := b\<rparr>"
    then show ?thesis using PermissionDenied a by (simp add: abandoned_def)
  qed
next
  case (EngineResolved j r)
  then show ?thesis using a by (cases "j = k") (auto simp add: abandoned_def)
next
  case (EngineRejected j)
  then show ?thesis using a by (cases "j = k") (auto simp add: abandoned_def)
qed

lemma abandoned_run: "abandoned s k \<Longrightarrow> abandoned (run s evs) k"
proof (induction evs arbitrary: s)
  case Nil
  then show ?case by (simp add: run_def)
next
  case (Cons e evs)
  from Cons.IH [OF abandoned_step [OF Cons.prems, of e]] show ?case by (simp add: run_Cons)
qed

section \<open>The claims\<close>




text \<open>
  Claim C2, as the code has it. In every run of the service from its creation the
  listener calls are the requests received, in order, each with its port and its
  envelope. A response is posted only for such a call: on the port of the call, with the
  identifier of its request, and carrying either the empty result or the answer the
  internal provider gave to that very call; that call has then ended, and per
  connection and identifier the responses posted are as many as the calls that ended so,
  never more than the requests sent. A response is posted whenever the call gets that
  far: when the internal provider answers a call waiting for it, and at once when the
  check of the page fails for a method other than \<^verbatim>\<open>eth_requestAccounts\<close>.
\<close>

theorem responses_tied_to_requests:
  "map (\<lambda>c. (port c, event c)) (calls (run (create d) evs)) = messages evs
   \<and> ((p, rsp) \<in> set (posted (run (create d) evs)) \<longrightarrow>
        (\<exists>k < length (calls (run (create d) evs)).
           port (calls (run (create d) evs) ! k) = p
           \<and> request_id (event (calls (run (create d) evs) ! k)) = response_id rsp
           \<and> at (calls (run (create d) evs) ! k) = Responded
           \<and> (result rsp = JArray [] \<or> EngineResolved k (result rsp) \<in> set evs)))
   \<and> delivered (run (create d) evs) p i = answered (run (create d) evs) p i
   \<and> answered (run (create d) evs) p i \<le> asked evs p i
   \<and> (j < length (calls s) \<and> at (calls s ! j) = AwaitEngine \<longrightarrow>
        posted (step s (EngineResolved j r))
          = posted s @ [(port (calls s ! j),
                         \<lparr>response_id = request_id (event (calls s ! j)), result = r\<rparr>)])
   \<and> (\<not> permissionCheck t (sender_url prt) \<and> method (request ev) \<noteq> ''eth_requestAccounts''
        \<longrightarrow> posted (step t (Message prt ev))
              = posted t @ [(prt, \<lparr>response_id = request_id ev, result = JArray []\<rparr>)])"
proof (intro conjI impI)
  show "map (\<lambda>c. (port c, event c)) (calls (run (create d) evs)) = messages evs"
    using run_messages [of "create d" evs] by (simp add: create_def)
next
  assume "(p, rsp) \<in> set (posted (run (create d) evs))"
  then show "\<exists>k < length (calls (run (create d) evs)).
           port (calls (run (create d) evs) ! k) = p
           \<and> request_id (event (calls (run (create d) evs) ! k)) = response_id rsp
           \<and> at (calls (run (create d) evs) ! k) = Responded
           \<and> (result rsp = JArray [] \<or> EngineResolved k (result rsp) \<in> set evs)"
    using posted_tied [of d evs] by fastforce
next
  show "delivered (run (create d) evs) p i = answered (run (create d) evs) p i"
    by (rule delivered_answered)
next
  show "answered (run (create d) evs) p i \<le> asked evs p i"
    by (rule answered_le_asked)
next
  assume "j < length (calls s) \<and> at (calls s ! j) = AwaitEngine"
  then show "posted (step s (EngineResolved j r))
          = posted s @ [(port (calls s ! j),
                         \<lparr>response_id = request_id (event (calls s ! j)), result = r\<rparr>)]"
    by simp
next
  assume "\<not> permissionCheck t (sender_url prt) \<and> method (request ev) \<noteq> ''eth_requestAccounts''"
  then show "posted (step t (Message prt ev))
              = posted t @ [(prt, \<lparr>response_id = request_id ev, result = JArray []\<rparr>)]"
    using listener_refused [of ev t prt] by simp
qed

theorem responses_tied_to_requests_witness:
  "posted (run (create ()) two_connections)
     = [(other_port, \<lparr>response_id = ''0'', result = JArray [JString ''0xabc'']\<rparr>),
        (dapp_port, \<lparr>response_id = ''1'', result = JArray []\<rparr>),
        (other_port, \<lparr>response_id = ''1'', result = JString ''0x1''\<rparr>)]
   \<and> map (\<lambda>c. (port c, event c)) (calls (run (create ()) two_connections))
       = [(other_port, envelope ''0'' ''eth_requestAccounts''),
          (dapp_port, envelope ''1'' ''eth_chainId''),
          (other_port, envelope ''1'' ''eth_chainId'')]
   \<and> (\<exists>k < 3. port (calls (run (create ()) two_connections) ! k) = other_port
          \<and> request_id (event (calls (run (create ()) two_connections) ! k)) = ''1''
          \<and> at (calls (run (create ()) two_connections) ! k) = Responded
          \<and> EngineResolved k (JString ''0x1'') \<in> set two_connections)
   \<and> delivered (run (create ()) two_connections) other_port ''1'' = 1
   \<and> asked two_connections other_port ''1'' = 1
   \<and> at (calls (run (create ()) (butlast two_connections)) ! 2) = AwaitEngine
   \<and> posted (step (run (create ()) (butlast two_connections))
        (EngineResolved 2 (JString ''0x1'')))
       = posted (run (create ()) (butlast two_connections))
         @ [(other_port, \<lparr>response_id = ''1'', result = JString ''0x1''\<rparr>)]
   \<and> permissionCheck (create ()) (sender_url dapp_port) = False
   \<and> posted (step (create ()) (Message dapp_port (envelope ''1'' ''eth_chainId'')))
       = [(dapp_port, \<lparr>response_id = ''1'', result = JArray []\<rparr>)]"
proof -
  let ?t = "run (create ()) (butlast two_connections)"
  note th = responses_tied_to_requests [of "()" two_connections other_port
        "\<lparr>response_id = ''1'', result = JString ''0x1''\<rparr>" "''1''" 2 ?t "JString ''0x1''"
        "create ()" dapp_port "envelope ''1'' ''eth_chainId''"]
  have p: "posted (run (create ()) two_connections)
     = [(other_port, \<lparr>response_id = ''0'', result = JArray [JString ''0xabc'']\<rparr>),
        (dapp_port, \<lparr>response_id = ''1'', result = JArray []\<rparr>),
        (other_port, \<lparr>response_id = ''1'', result = JString ''0x1''\<rparr>)]"
    by (simp add: eval_defs scenario_defs)
  have ms: "messages two_connections
       = [(other_port, envelope ''0'' ''eth_requestAccounts''),
          (dapp_port, envelope ''1'' ''eth_chainId''),
          (other_port, envelope ''1'' ''eth_chainId'')]"
    by (simp add: messages_def two_connections_def)
  have c: "map (\<lambda>c. (port c, event c)) (calls (run (create ()) two_connections))
       = [(other_port, envelope ''0'' ''eth_requestAccounts''),
          (dapp_port, envelope ''1'' ''eth_chainId''),
          (other_port, envelope ''1'' ''eth_chainId'')]"
    using th ms by simp
  have ln: "length (calls (run (create ()) two_connections)) = 3"
    using arg_cong [OF c, of length] by simp
  have e: "\<exists>k < 3. port (calls (run (create ()) two_connections) ! k) = other_port
          \<and> request_id (event (calls (run (create ()) two_connections) ! k)) = ''1''
          \<and> at (calls (run (create ()) two_connections) ! k) = Responded
          \<and> EngineResolved k (JString ''0x1'') \<in> set two_connections"
    using th ln by (simp add: p)
  have dl: "delivered (run (create ()) two_connections) other_port ''1'' = 1"
    by (simp add: p delivered_def) (simp add: scenario_defs)
  have a: "asked two_connections other_port ''1'' = 1"
    by (simp add: asked_def is_request_def scenario_defs)
  have t: "2 < length (calls ?t)" "at (calls ?t ! 2) = AwaitEngine"
    "port (calls ?t ! 2) = other_port" "request_id (event (calls ?t ! 2)) = ''1''"
    by (simp_all add: eval_defs scenario_defs)
  have l: "posted (step ?t (EngineResolved 2 (JString ''0x1'')))
       = posted ?t @ [(other_port, \<lparr>response_id = ''1'', result = JString ''0x1''\<rparr>)]"
    using th t by (simp del: step.simps)
  have n: "permissionCheck (create ()) (sender_url dapp_port) = False"
    by (simp add: eval_defs)
  have m: "method (request (envelope ''1'' ''eth_chainId'')) \<noteq> ''eth_requestAccounts''"
    "request_id (envelope ''1'' ''eth_chainId'') = ''1''" "posted (create ()) = []"
    by (simp_all add: envelope_def create_def)
  have q: "posted (step (create ()) (Message dapp_port (envelope ''1'' ''eth_chainId'')))
       = [(dapp_port, \<lparr>response_id = ''1'', result = JArray []\<rparr>)]"
    using th n m by (simp del: step.simps)
  show ?thesis
    by (intro conjI) (fact p c e dl a t(2) l n q)+
qed

text \<open>
  Claim C2, as stated, fails where it promises each connection its response. Two ports
  of one page ask for accounts, both with the identifier \<open>1\<close>. The grant lets only the
  call registered last go on: its port gets the accounts, the other port gets nothing,
  and no later grant or answer of the internal provider changes that, for a call that
  waits for the human with no resolver stored stays as it is (\<open>abandoned_run\<close>). Nor is
  anything posted when the internal provider fails.
\<close>

theorem unanswered_connection_counterexample:
  "asked same_identifier dapp_port ''1'' = 1
   \<and> asked same_identifier second_port ''1'' = 1
   \<and> posted (run (create ()) same_identifier)
       = [(second_port, \<lparr>response_id = ''1'', result = JArray [JString ''0xabc'']\<rparr>)]
   \<and> delivered (run (create ()) same_identifier) dapp_port ''1'' = 0
   \<and> map at (calls (run (create ()) same_identifier)) = [AwaitUserAction, Responded]
   \<and> pendingPermissionsRequests (run (create ()) same_identifier) origin = None
   \<and> posted (run (create ())
        (first_round @ [PermissionGranted (decision origin ''allow''), EngineRejected 0])) = []"
  by (simp add: eval_defs scenario_defs asked_def is_request_def delivered_def)

text \<open>
  Claim C3, as the code has it. Only \<^verbatim>\<open>eth_requestAccounts\<close> goes through the approval
  gate: from a page that is not allowed it opens an approval round (the event is
  emitted, the permission window asked for) and nothing is routed or posted. Any other
  method from such a page, \<^verbatim>\<open>eth_sendTransaction\<close> included, opens no round and is
  answered at once with the empty result. When the decision lands for the call whose
  resolver the ledger holds: a deny posts the empty result under the identifier of the
  request and routes nothing; a grant whose record has state \<open>allow\<close> routes the request
  to the internal provider as \<^verbatim>\<open>eth_accounts\<close> and posts nothing yet.
\<close>

theorem gate_for_requestAccounts_only:
  "(method (request ev) = ''eth_requestAccounts'' \<and> \<not> permissionCheck s (sender_url prt)
    \<longrightarrow> step s (Message prt ev) =
        s\<lparr>calls := calls s @ [\<lparr>port = prt, event = ev, at = AwaitPermissionWindow\<rparr>],
          emitted := emitted s @ [\<lparr>url = sender_url prt,
             favIconUrl = (case sender_tab_favIconUrl prt of None \<Rightarrow> [] | Some f \<Rightarrow> f),
             state = ''request''\<rparr>],
          windows := windows s @ [''/permission'']\<rparr>)
   \<and> (method (request ev) \<noteq> ''eth_requestAccounts'' \<and> \<not> permissionCheck s (sender_url prt)
    \<longrightarrow> step s (Message prt ev) =
        s\<lparr>calls := calls s @ [\<lparr>port = prt, event = ev, at = Responded\<rparr>],
          posted := posted s @ [(prt, \<lparr>response_id = request_id ev, result = JArray []\<rparr>)]\<rparr>)
   \<and> (pendingPermissionsRequests (run (create d) evs) (url pm) = Some k
    \<longrightarrow> routed (step (run (create d) evs) (PermissionDenied pm)) = routed (run (create d) evs)
        \<and> posted (step (run (create d) evs) (PermissionDenied pm))
            = posted (run (create d) evs)
              @ [(port (calls (run (create d) evs) ! k),
                  \<lparr>response_id = request_id (event (calls (run (create d) evs) ! k)),
                   result = JArray []\<rparr>)]
        \<and> (state pm = ''allow'' \<longrightarrow>
             routed (step (run (create d) evs) (PermissionGranted pm))
               = routed (run (create d) evs)
                 @ [(''eth_accounts'', params (request (event (calls (run (create d) evs) ! k))))]
             \<and> posted (step (run (create d) evs) (PermissionGranted pm))
                 = posted (run (create d) evs)))"
proof (intro conjI impI)
  assume "method (request ev) = ''eth_requestAccounts'' \<and> \<not> permissionCheck s (sender_url prt)"
  then show "step s (Message prt ev) =
        s\<lparr>calls := calls s @ [\<lparr>port = prt, event = ev, at = AwaitPermissionWindow\<rparr>],
          emitted := emitted s @ [\<lparr>url = sender_url prt,
             favIconUrl = (case sender_tab_favIconUrl prt of None \<Rightarrow> [] | Some f \<Rightarrow> f),
             state = ''request''\<rparr>],
          windows := windows s @ [''/permission'']\<rparr>"
    using listener_gate [of ev s prt] by simp
next
  assume "method (request ev) \<noteq> ''eth_requestAccounts'' \<and> \<not> permissionCheck s (sender_url prt)"
  then show "step s (Message prt ev) =
        s\<lparr>calls := calls s @ [\<lparr>port = prt, event = ev, at = Responded\<rparr>],
          posted := posted s @ [(prt, \<lparr>response_id = request_id ev, result = JArray []\<rparr>)]\<rparr>"
    using listener_refused [of ev s prt] by simp
next
  let ?s = "run (create d) evs"
  assume k: "pendingPermissionsRequests ?s (url pm) = Some k"
  note dn = deny_releases [OF pending_wf_reachable k]
  show "routed (step ?s (PermissionDenied pm)) = routed ?s"
    by (simp add: dn)
  show "posted (step ?s (PermissionDenied pm))
            = posted ?s @ [(port (calls ?s ! k),
                  \<lparr>response_id = request_id (event (calls ?s ! k)), result = JArray []\<rparr>)]"
    by (simp add: dn)
  assume a: "state pm = ''allow''"
  note gr = grant_releases [OF pending_wf_reachable k a]
  show "routed (step ?s (PermissionGranted pm))
               = routed ?s @ [(''eth_accounts'', params (request (event (calls ?s ! k))))]"
    by (simp add: gr)
  show "posted (step ?s (PermissionGranted pm)) = posted ?s"
    by (simp add: gr)
qed

theorem gate_for_requestAccounts_only_witness:
  "\<not> permissionCheck (create ()) (sender_url dapp_port)
   \<and> windows (step (create ()) (Message dapp_port (envelope ''a'' ''eth_requestAccounts'')))
       = [''/permission'']
   \<and> routed (step (create ()) (Message dapp_port (envelope ''a'' ''eth_requestAccounts''))) = []
   \<and> pendingPermissionsRequests (run (create ()) first_round) origin = Some 0
   \<and> posted (step (run (create ()) first_round) (PermissionDenied (decision origin ''deny'')))
       = [(dapp_port, \<lparr>response_id = ''a'', result = JArray []\<rparr>)]
   \<and> routed (step (run (create ()) first_round) (PermissionGranted (decision origin ''allow'')))
       = [(''eth_accounts'', JArray [])]"
proof -
  have n: "\<not> permissionCheck (create ()) (sender_url dapp_port)"
    by (simp add: eval_defs)
  have m: "method (request (envelope ''a'' ''eth_requestAccounts'')) = ''eth_requestAccounts''"
    by (simp add: envelope_def)
  have p: "pendingPermissionsRequests (run (create ()) first_round) origin = Some 0"
    by (simp add: eval_defs scenario_defs)
  have c: "calls (run (create ()) first_round)
             = [\<lparr>port = dapp_port, event = envelope ''a'' ''eth_requestAccounts'',
                 at = AwaitUserAction\<rparr>]"
    "posted (run (create ()) first_round) = []" "routed (run (create ()) first_round) = []"
    by (simp_all add: eval_defs first_round_def envelope_def)
  have u: "url (decision origin ''deny'') = origin" "url (decision origin ''allow'') = origin"
    "state (decision origin ''allow'') = ''allow''"
    by (simp_all add: decision_def)
  have g: "routed (step (run (create ()) first_round) (PermissionGranted (decision origin ''allow'')))
       = [(''eth_accounts'', JArray [])]"
    using gate_for_requestAccounts_only [of "envelope ''a'' ''eth_requestAccounts''" "create ()"
        dapp_port "()" first_round "decision origin ''allow''" 0] p
    by (simp add: u c del: step.simps) (simp add: envelope_def)
  have dn: "posted (step (run (create ()) first_round) (PermissionDenied (decision origin ''deny'')))
       = [(dapp_port, \<lparr>response_id = ''a'', result = JArray []\<rparr>)]"
    using gate_for_requestAccounts_only [of "envelope ''a'' ''eth_requestAccounts''" "create ()"
        dapp_port "()" first_round "decision origin ''deny''" 0] p
    by (simp add: u c del: step.simps) (simp add: envelope_def)
  have w: "windows (step (create ()) (Message dapp_port (envelope ''a'' ''eth_requestAccounts'')))
       = [''/permission'']"
    "routed (step (create ()) (Message dapp_port (envelope ''a'' ''eth_requestAccounts''))) = []"
    using gate_for_requestAccounts_only [of "envelope ''a'' ''eth_requestAccounts''" "create ()"
        dapp_port "()" first_round "decision origin ''allow''" 0] n m
    by (simp_all add: create_def del: step.simps)
  show ?thesis
    using n w p dn g by simp
qed

text \<open>
  Claim C3, as stated, fails: a transaction of a page with no record opens no approval
  round and is answered with the empty result; and after a deny the page gets the
  empty result under its identifier, a success envelope, not an error.
\<close>

theorem approval_gate_counterexample:
  "emitted (step (create ()) (Message dapp_port (envelope ''t'' ''eth_sendTransaction''))) = []
   \<and> windows (step (create ()) (Message dapp_port (envelope ''t'' ''eth_sendTransaction''))) = []
   \<and> posted (step (create ()) (Message dapp_port (envelope ''t'' ''eth_sendTransaction'')))
       = [(dapp_port, \<lparr>response_id = ''t'', result = JArray []\<rparr>)]
   \<and> posted (run (create ()) (first_round @ [PermissionDenied (decision origin ''deny'')]))
       = [(dapp_port, \<lparr>response_id = ''a'', result = JArray []\<rparr>)]"
  by (simp add: eval_defs scenario_defs)

text \<open>
  Claim C4, as the code has it. A request for any method other than
  \<^verbatim>\<open>eth_requestAccounts\<close> from a page whose url has no permission record is answered
  in the same turn with the empty result under its identifier: no approval round is
  opened, and the internal provider is not called.
\<close>

theorem no_record_answered_empty:
  "allowedPages s (sender_url prt) = None \<Longrightarrow>
   method (request ev) \<noteq> ''eth_requestAccounts'' \<Longrightarrow>
   step s (Message prt ev) =
     s\<lparr>calls := calls s @ [\<lparr>port = prt, event = ev, at = Responded\<rparr>],
       posted := posted s @ [(prt, \<lparr>response_id = request_id ev, result = JArray []\<rparr>)]\<rparr>"
  using listener_refused [of ev s prt] by (simp add: permissionCheck_def)

theorem no_record_answered_empty_witness:
  "allowedPages (create ()) (sender_url dapp_port) = None
   \<and> method (request (envelope ''c'' ''eth_chainId'')) \<noteq> ''eth_requestAccounts''
   \<and> step (create ()) (Message dapp_port (envelope ''c'' ''eth_chainId''))
       = \<lparr>allowedPages = Map.empty, pendingPermissionsRequests = Map.empty, db = (),
          calls = [\<lparr>port = dapp_port, event = envelope ''c'' ''eth_chainId'', at = Responded\<rparr>],
          emitted = [], windows = [], routed = [],
          posted = [(dapp_port, \<lparr>response_id = ''c'', result = JArray []\<rparr>)]\<rparr>"
proof -
  have a: "allowedPages (create ()) (sender_url dapp_port) = None"
    by (simp add: create_def)
  have m: "method (request (envelope ''c'' ''eth_chainId'')) \<noteq> ''eth_requestAccounts''"
    by (simp add: envelope_def)
  show ?thesis
    using no_record_answered_empty [OF a m] a m
    by (simp add: create_def envelope_def del: step.simps)
qed

text \<open>
  Claim C4, as stated, fails: the chain id asked by a page with no record is not
  routed to the internal provider; the page is answered with the empty result.
\<close>

theorem open_method_counterexample:
  "routed (step (create ()) (Message dapp_port (envelope ''c'' ''eth_chainId''))) = []
   \<and> posted (step (create ()) (Message dapp_port (envelope ''c'' ''eth_chainId'')))
       = [(dapp_port, \<lparr>response_id = ''c'', result = JArray []\<rparr>)]"
  by (simp add: eval_defs scenario_defs)

text \<open>
  Claim C5, as the code has it. When a deny lands for a url with an entry in the
  ledger, in any state the service can reach, the request whose resolver the entry
  holds was made by a page of that url and gets one response, with its own identifier
  and the empty result; nothing is routed.
\<close>

theorem deny_answers_empty:
  "pendingPermissionsRequests (run (create d) evs) (url pm) = Some k \<Longrightarrow>
   posted (step (run (create d) evs) (PermissionDenied pm))
     = posted (run (create d) evs)
       @ [(port (calls (run (create d) evs) ! k),
           \<lparr>response_id = request_id (event (calls (run (create d) evs) ! k)),
            result = JArray []\<rparr>)]
   \<and> sender_url (port (calls (run (create d) evs) ! k)) = url pm
   \<and> routed (step (run (create d) evs) (PermissionDenied pm)) = routed (run (create d) evs)"
proof -
  assume k: "pendingPermissionsRequests (run (create d) evs) (url pm) = Some k"
  show ?thesis
    using pending_wfD(3) [OF pending_wf_reachable k]
    by (simp add: deny_releases [OF pending_wf_reachable k])
qed

theorem deny_answers_empty_witness:
  "pendingPermissionsRequests
     (run (create ()) [Message other_port (envelope ''a'' ''eth_requestAccounts''), WindowCreated 0])
     elsewhere = Some 0
   \<and> posted (step
        (run (create ()) [Message other_port (envelope ''a'' ''eth_requestAccounts''), WindowCreated 0])
        (PermissionDenied (decision elsewhere ''deny'')))
       = [(other_port, \<lparr>response_id = ''a'', result = JArray []\<rparr>)]"
proof -
  let ?evs = "[Message other_port (envelope ''a'' ''eth_requestAccounts''), WindowCreated 0]"
  have p: "pendingPermissionsRequests (run (create ()) ?evs) (url (decision elsewhere ''deny''))
             = Some 0"
    by (simp add: eval_defs scenario_defs)
  have c: "calls (run (create ()) ?evs)
             = [\<lparr>port = other_port, event = envelope ''a'' ''eth_requestAccounts'',
                 at = AwaitUserAction\<rparr>]"
    "posted (run (create ()) ?evs) = []"
    by (simp_all add: eval_defs envelope_def)
  show ?thesis
    using deny_answers_empty [OF p] p
    by (simp add: c decision_def del: step.simps) (simp add: envelope_def)
qed

text \<open>
  Claim C5, as stated, fails: after a deny the waiting request is answered with
  \<^verbatim>\<open>{ id, result: [] }\<close>, the envelope of a success with no accounts.
\<close>

theorem deny_error_counterexample:
  "posted (run (create ())
     [Message other_port (envelope ''a'' ''eth_requestAccounts''), WindowCreated 0,
      PermissionDenied (decision elsewhere ''deny'')])
   = [(other_port, \<lparr>response_id = ''a'', result = JArray []\<rparr>)]"
  by (simp add: eval_defs scenario_defs)

text \<open>
  Claim C6, as the code has it. A deny for a url with an entry in the ledger deletes
  the permission record of that url, whatever it was, and the entry: afterwards the
  url has no record.
\<close>

theorem deny_deletes_record:
  "pendingPermissionsRequests s (url pm) = Some k \<Longrightarrow>
   allowedPages (step s (PermissionDenied pm)) (url pm) = None
   \<and> pendingPermissionsRequests (step s (PermissionDenied pm)) (url pm) = None"
  by (simp add: permissionDenyOrRevoke_def release_def respond_simps)

theorem deny_deletes_record_witness:
  "pendingPermissionsRequests (run (create ()) first_round) (url (decision origin ''deny''))
     = Some 0
   \<and> allowedPages (step (run (create ()) first_round) (PermissionDenied (decision origin ''deny'')))
       origin = None
   \<and> pendingPermissionsRequests
        (step (run (create ()) first_round) (PermissionDenied (decision origin ''deny'')))
        origin = None"
proof -
  have p: "pendingPermissionsRequests (run (create ()) first_round)
             (url (decision origin ''deny'')) = Some 0"
    by (simp add: eval_defs scenario_defs)
  show ?thesis
    using deny_deletes_record [OF p] p by (simp add: decision_def del: step.simps)
qed

text \<open>
  Claim C6, as stated, fails: after the deny the origin has no permission record at
  all, so none with a state \<open>denied\<close>.
\<close>

theorem denied_record_counterexample:
  "allowedPages (run (create ()) (first_round @ [PermissionDenied (decision origin ''deny'')]))
     origin = None"
  by (simp add: eval_defs scenario_defs)

text \<open>
  Claim C7, as the code has it. A request from a page whose url is allowed opens no
  approval round: no event is emitted, no permission window asked for, the ledger and
  the records stay as they are. If the method is not \<^verbatim>\<open>eth_sendTransaction\<close> the
  request is routed to the internal provider in the same turn
  (\<^verbatim>\<open>eth_requestAccounts\<close> as \<^verbatim>\<open>eth_accounts\<close>) and no window is opened. If it is,
  the sign window is asked for first, and the request is routed when that window has
  been created.
\<close>

theorem allowed_origin_no_round:
  "permissionCheck s (sender_url prt) \<Longrightarrow>
   (method (request ev) \<noteq> ''eth_sendTransaction'' \<longrightarrow>
      step s (Message prt ev) =
        s\<lparr>calls := calls s @ [\<lparr>port = prt, event = ev, at = AwaitEngine\<rparr>],
          routed := routed s @ [(if method (request ev) = ''eth_requestAccounts''
                                 then ''eth_accounts'' else method (request ev),
                                 params (request ev))]\<rparr>)
   \<and> (method (request ev) = ''eth_sendTransaction'' \<longrightarrow>
      step s (Message prt ev) =
        s\<lparr>calls := calls s @ [\<lparr>port = prt, event = ev, at = AwaitSignWindow\<rparr>],
          windows := windows s @ [''/signTransaction'']\<rparr>
      \<and> routed (step (step s (Message prt ev)) (WindowCreated (length (calls s))))
          = routed s @ [(''eth_sendTransaction'', params (request ev))])"
proof (intro conjI impI)
  assume a: "permissionCheck s (sender_url prt)"
  {
    assume "method (request ev) \<noteq> ''eth_sendTransaction''"
    then show "step s (Message prt ev) =
        s\<lparr>calls := calls s @ [\<lparr>port = prt, event = ev, at = AwaitEngine\<rparr>],
          routed := routed s @ [(if method (request ev) = ''eth_requestAccounts''
                                 then ''eth_accounts'' else method (request ev),
                                 params (request ev))]\<rparr>"
      using listener_routed [OF a, of ev] by simp
  }
  assume m: "method (request ev) = ''eth_sendTransaction''"
  have s: "onMessageListener s prt ev =
        s\<lparr>calls := calls s @ [\<lparr>port = prt, event = ev, at = AwaitSignWindow\<rparr>],
          windows := windows s @ [''/signTransaction'']\<rparr>"
    by (rule listener_sign [OF a m])
  show "step s (Message prt ev) =
        s\<lparr>calls := calls s @ [\<lparr>port = prt, event = ev, at = AwaitSignWindow\<rparr>],
          windows := windows s @ [''/signTransaction'']\<rparr>"
    using s by simp
  show "routed (step (step s (Message prt ev)) (WindowCreated (length (calls s))))
          = routed s @ [(''eth_sendTransaction'', params (request ev))]"
    using m by (simp add: s)
qed

theorem allowed_origin_no_round_witness:
  "permissionCheck (run (create ()) (first_round @ [PermissionGranted (decision origin ''allow'')]))
     (sender_url dapp_port)
   \<and> routed (step (run (create ()) (first_round @ [PermissionGranted (decision origin ''allow'')]))
        (Message dapp_port (envelope ''b'' ''eth_requestAccounts'')))
       = [(''eth_accounts'', JArray []), (''eth_accounts'', JArray [])]
   \<and> windows (step (run (create ()) (first_round @ [PermissionGranted (decision origin ''allow'')]))
        (Message dapp_port (envelope ''b'' ''eth_requestAccounts'')))
       = [''/permission'']"
proof -
  let ?s = "run (create ()) (first_round @ [PermissionGranted (decision origin ''allow'')])"
  have a: "permissionCheck ?s (sender_url dapp_port)"
    by (simp add: eval_defs scenario_defs)
  have r: "routed ?s = [(''eth_accounts'', JArray [])]" "windows ?s = [''/permission'']"
    by (simp_all add: eval_defs scenario_defs)
  show ?thesis
    using allowed_origin_no_round [OF a, of "envelope ''b'' ''eth_requestAccounts''"] a
    by (simp add: r envelope_def del: step.simps)
qed

text \<open>
  Claim C7, as stated, fails for a transaction: the origin is allowed, yet the request
  is not routed at once; the service first asks for the sign window.
\<close>

theorem no_window_counterexample:
  "permissionCheck (run (create ()) (first_round @ [PermissionGranted (decision origin ''allow'')]))
     origin
   \<and> windows (run (create ())
        (first_round @ [PermissionGranted (decision origin ''allow''),
                        Message dapp_port (envelope ''t'' ''eth_sendTransaction'')]))
       = [''/permission'', ''/signTransaction'']
   \<and> routed (run (create ())
        (first_round @ [PermissionGranted (decision origin ''allow''),
                        Message dapp_port (envelope ''t'' ''eth_sendTransaction'')]))
       = [(''eth_accounts'', JArray [])]"
  by (simp add: eval_defs scenario_defs)

text \<open>
  Claim C8. An origin is the identity of a page, a scheme and a host, and so never a
  name that every object inherits. For a url that is no such name and has no entry in
  the ledger, a grant and a deny both return without throwing and leave the whole
  state of the service as it is: the records and entries of that url and of every
  other, the calls in flight, and everything asked of the collaborators.
\<close>

theorem stale_decision_noop:
  "pendingPermissionsRequests s (url pm) = None \<Longrightarrow> \<not> inherited (url pm) \<Longrightarrow>
   permissionGrant s pm = (None, s) \<and> permissionDenyOrRevoke s pm = (None, s)
   \<and> step s (PermissionGranted pm) = s \<and> step s (PermissionDenied pm) = s"
  by (simp add: permissionGrant_def permissionDenyOrRevoke_def)

theorem stale_decision_noop_witness:
  "pendingPermissionsRequests (run (create ()) first_round) (url (decision elsewhere ''allow''))
     = None
   \<and> inherited (url (decision elsewhere ''allow'')) = False
   \<and> pendingPermissionsRequests (run (create ()) first_round) origin = Some 0
   \<and> permissionGrant (run (create ()) first_round) (decision elsewhere ''allow'')
       = (None, run (create ()) first_round)
   \<and> permissionDenyOrRevoke (run (create ()) first_round) (decision elsewhere ''allow'')
       = (None, run (create ()) first_round)
   \<and> step (run (create ()) first_round) (PermissionGranted (decision elsewhere ''allow''))
       = run (create ()) first_round
   \<and> step (run (create ()) first_round) (PermissionDenied (decision elsewhere ''allow''))
       = run (create ()) first_round"
proof -
  have p: "pendingPermissionsRequests (run (create ()) first_round)
             (url (decision elsewhere ''allow'')) = None"
    by (simp add: eval_defs scenario_defs)
  have i: "\<not> inherited (url (decision elsewhere ''allow''))"
    by (simp add: inherited_def decision_def elsewhere_def)
  have q: "pendingPermissionsRequests (run (create ()) first_round) origin = Some 0"
    by (simp add: eval_defs scenario_defs)
  show ?thesis
    using stale_decision_noop [OF p i] p i q by (simp del: step.simps)
qed

text \<open>
  Outside the claim: under a name that every object inherits the guard of both methods
  passes with nothing stored. A grant for \<^verbatim>\<open>constructor\<close> stores a record, and a grant
  or a deny for \<^verbatim>\<open>__proto__\<close> throws.
\<close>

lemma decision_for_inherited_name:
  "permissionGrant (create ()) (decision ''constructor'' ''allow'')
     = (None, (create ())\<lparr>allowedPages := [''constructor'' \<mapsto> decision ''constructor'' ''allow'']\<rparr>)"
  "fst (permissionGrant (create ()) (decision ''__proto__'' ''allow'')) = Some TypeError"
  "permissionDenyOrRevoke (create ()) (decision ''__proto__'' ''deny'')
     = (Some TypeError, create ())"
  by (simp_all add: permissionGrant_def permissionDenyOrRevoke_def inherited_def
        refuses_call_def decision_def create_def)

text \<open>
  Claim C9, as the code has it. Permission records live in the field
  \<^verbatim>\<open>allowedPages\<close> only: no event changes the database handle the service was created
  with, and a service created anew, on whatever database, allows no url.
\<close>

theorem records_in_memory_only:
  "db (run s evs) = db s \<and> \<not> permissionCheck (create (db (run s evs))) u"
  by (simp add: db_run) (simp add: create_def permissionCheck_def)

text \<open>
  Claim C9, as stated, fails: an origin granted in one run of the service is not
  allowed by the service created again on the same database.
\<close>

theorem durable_grant_counterexample:
  "permissionCheck (run (create ()) (first_round @ [PermissionGranted (decision origin ''allow'')]))
     origin
   \<and> \<not> permissionCheck
        (create (db (run (create ())
           (first_round @ [PermissionGranted (decision origin ''allow'')])))) origin"
  by (simp add: eval_defs scenario_defs)




end
